theory Spec2Isabelle
  imports Complex_Main
begin

section \<open>fastmod: the worker\<close>

text \<open>
  A queue item is the tuple \<open>(root, name, perms)\<close> that \<open>fastmod_folder\<close> puts on the
  queue. The producer only ever puts tuples of three strings or the tuple
  \<open>(None, None, None)\<close>; the worker tests \<open>root is None\<close> only.
\<close>

datatype qitem = Task string string string | Stop

text \<open>
  One \<open>os.system\<close> call of a batch. \<open>Chgrp quiet group paths\<close> stands for
  \<open>os.system(f"{chgrp} " + joined_paths)\<close>, \<open>Chmod quiet perms paths\<close> for
  \<open>os.system(f"{chmod} {perms} " + joined_paths)\<close>; \<open>command\<close> gives the string
  passed to the shell.
\<close>

datatype call = Chgrp bool string "string list" | Chmod bool string "string list"

fun joined_paths :: "string list \<Rightarrow> string" where
  "joined_paths [] = []"
| "joined_paths [b] = [CHR 0x27] @ b @ [CHR 0x27]"
| "joined_paths (b # bs) = [CHR 0x27] @ b @ [CHR 0x27] @ '' '' @ joined_paths bs"

fun command :: "call \<Rightarrow> string" where
  "command (Chgrp quiet grp ps) =
     (if quiet then ''chgrp -f '' @ grp else ''chgrp '' @ grp) @ '' '' @ joined_paths ps"
| "command (Chmod quiet perms ps) =
     (if quiet then ''chmod -f'' else ''chmod'') @ '' '' @ perms @ '' '' @ joined_paths ps"

fun call_paths :: "call \<Rightarrow> string list" where
  "call_paths (Chgrp q g ps) = ps"
| "call_paths (Chmod q p ps) = ps"

fun is_chmod :: "call \<Rightarrow> bool" where
  "is_chmod (Chmod q p ps) = True"
| "is_chmod (Chgrp q g ps) = False"

text \<open>
  The worker's \<open>buffer\<close> is a dict from permission string to a set of paths. The dict
  is an association list in insertion order (the order \<open>buffer.items()\<close> iterates in);
  a set of paths is a list without repetition, \<open>set_add\<close> being \<open>set.add\<close>. The order
  in which Python iterates over a set is not specified; the list fixes one.
\<close>

type_synonym buffer = "(string \<times> string list) list"

definition set_add :: "string \<Rightarrow> string list \<Rightarrow> string list" where
  "set_add p s = (if p \<in> set s then s else s @ [p])"

text \<open>\<open>buffer.setdefault(perms, set()).add(path)\<close>\<close>

fun setdefault_add :: "string \<Rightarrow> string \<Rightarrow> buffer \<Rightarrow> buffer" where
  "setdefault_add perms path [] = [(perms, set_add path [])]"
| "setdefault_add perms path ((k, s) # b) =
     (if k = perms then (k, set_add path s) # b else (k, s) # setdefault_add perms path b)"

text \<open>\<open>buffer[perms]\<close>, read after \<open>setdefault\<close> has made the key present.\<close>

fun buffer_get :: "buffer \<Rightarrow> string \<Rightarrow> string list" where
  "buffer_get [] perms = []"
| "buffer_get ((k, s) # b) perms = (if k = perms then s else buffer_get b perms)"

text \<open>\<open>buffer[perms].clear()\<close>: the key stays, with an empty set.\<close>

fun buffer_clear :: "string \<Rightarrow> buffer \<Rightarrow> buffer" where
  "buffer_clear perms [] = []"
| "buffer_clear perms ((k, s) # b) =
     (if k = perms then (k, []) # b else (k, s) # buffer_clear perms b)"

definition resolve :: "string \<Rightarrow> string \<Rightarrow> string" where
  "resolve rt name = (if name = ''.'' then rt else rt @ ''/'' @ name)"

text \<open>The two \<open>os.system\<close> lines of a flush (lines 88-90 and 96-98).\<close>

definition flush :: "string option \<Rightarrow> bool \<Rightarrow> string \<Rightarrow> string list \<Rightarrow> call list" where
  "flush grp quiet perms buffered =
     (case grp of None \<Rightarrow> [] | Some g \<Rightarrow> [Chgrp quiet g buffered])
     @ [Chmod quiet perms buffered]"

text \<open>One iteration of the \<open>while True\<close> loop on a task (lines 75-91).\<close>

definition worker_step ::
  "string option \<Rightarrow> bool \<Rightarrow> int \<Rightarrow> buffer \<Rightarrow> string \<Rightarrow> string \<Rightarrow> string \<Rightarrow> call list \<times> buffer"
where
  "worker_step grp quiet blocksize buffer rt name perms =
     (let path = resolve rt name;
          buffer1 = setdefault_add perms path buffer;
          buffered = buffer_get buffer1 perms
      in if int (length buffered) \<ge> blocksize
         then (flush grp quiet perms buffered, buffer_clear perms buffer1)
         else ([], buffer1))"

text \<open>
  The loop over the items the worker dequeues. \<open>queue.get()\<close> blocks on an empty queue:
  a stream that ends without the \<open>(None, None, None)\<close> tuple never lets the worker
  return, which is the value \<open>None\<close>.
\<close>

fun worker_loop ::
  "string option \<Rightarrow> bool \<Rightarrow> int \<Rightarrow> buffer \<Rightarrow> qitem list \<Rightarrow> (call list \<times> buffer) option"
where
  "worker_loop grp quiet blocksize buffer [] = None"
| "worker_loop grp quiet blocksize buffer (Stop # items) = Some ([], buffer)"
| "worker_loop grp quiet blocksize buffer (Task rt name perms # items) =
     (case worker_step grp quiet blocksize buffer rt name perms of
        (cs, buffer') \<Rightarrow>
          (case worker_loop grp quiet blocksize buffer' items of
             None \<Rightarrow> None
           | Some (cs', buffer'') \<Rightarrow> Some (cs @ cs', buffer'')))"

text \<open>The \<open>for perms, buffered in buffer.items()\<close> loop after the \<open>break\<close>.\<close>

fun worker_drain :: "string option \<Rightarrow> bool \<Rightarrow> buffer \<Rightarrow> call list" where
  "worker_drain grp quiet [] = []"
| "worker_drain grp quiet ((perms, buffered) # b) =
     (if buffered = [] then worker_drain grp quiet b
      else flush grp quiet perms buffered @ worker_drain grp quiet b)"

text \<open>
  \<open>worker_main\<close> returns the calls made inside the loop and the calls made by the drain;
  the process makes them in this order.
\<close>

definition worker_main ::
  "qitem list \<Rightarrow> string option \<Rightarrow> bool \<Rightarrow> int \<Rightarrow> (call list \<times> call list) option"
where
  "worker_main queue grp quiet blocksize =
     (case worker_loop grp quiet blocksize [] queue of
        None \<Rightarrow> None
      | Some (cs, buffer) \<Rightarrow> Some (cs, worker_drain grp quiet buffer))"

text \<open>The sizes of the batches a list of calls flushes: one \<open>chmod\<close> per batch.\<close>

definition batch_sizes :: "call list \<Rightarrow> nat list" where
  "batch_sizes cs = map (\<lambda>c. length (call_paths c)) (filter is_chmod cs)"

section \<open>Configuration and argument parsing\<close>

definition PRESETS :: "(string \<times> string \<times> string) list" where
  "PRESETS =
    [(''baseline'', ''u+rw,g+r-w,o+r-w'', ''u+rwx,g+rxs-w,o+rx-w''),
     (''group-allowed'', ''ug+rw,o+r-w'', ''ug+rwx,g+s,o+rx-w''),
     (''private'', ''u+rw,go-rwx'', ''u+rwx,g-rwx,o-rwx''),
     (''private-group'', ''ug+rw,o-rwx'', ''ug+rwx,g+s,o-rwx''),
     (''readonly'', ''a-w,+t'', ''a-w,+t'')]"

text \<open>
  What the script reads from outside itself: the module-level constants computed from
  the process environment, the file system (\<open>os.path.exists\<close>, \<open>os.path.isdir\<close>,
  \<open>os.walk\<close>), the builtin \<open>int\<close> (\<open>None\<close> where it raises \<open>ValueError\<close>) and the
  wall-clock time that elapses between the two \<open>time.time()\<close> calls of
  \<open>fastmod_folder\<close>.
\<close>

record env =
  DEFAULT_BLOCKSIZE :: int
  DEFAULT_CORES :: int
  DEFAULT_PRESET :: string
  PRIMARY_GROUP :: string
  path_exists :: "string \<Rightarrow> bool"
  path_isdir :: "string \<Rightarrow> bool"
  os_walk :: "string \<Rightarrow> (string \<times> string list \<times> string list) list"
  py_int :: "string \<Rightarrow> int option"
  elapsed :: rat

record config =
  path :: string
  perms_fil :: string
  perms_dir :: string
  grp :: "string option"
  set_group :: bool
  ncpus :: int
  blocksize :: int
  quiet :: bool

datatype exn = KeyError | ValueError | IndexError | ZeroDivisionError

text \<open>
  How a call ends: it returns a value, calls \<open>sys.exit\<close>, raises, or never returns
  (a \<open>join\<close> on a worker that waits on the queue for ever).
\<close>

datatype 'a result = Ok 'a | SysExit int | Raised exn | Blocked

text \<open>The lines the script prints, by the \<open>print\<close> call that writes them.\<close>

datatype message =
    Help
  | NoSuchPath string
  | NoSuchPreset string
  | SplitHint
  | SplitExample
  | Using int int
  | SettingFile string
  | SettingDirectory string
  | SettingGroup string
  | Report nat rat
  | Done

text \<open>
  What the main process does, in order: \<open>print\<close>, \<open>worker.start()\<close> (with the
  arguments the worker was created with), \<open>queue.put_nowait\<close>, \<open>worker.join()\<close> and
  \<open>os.system\<close>.
\<close>

datatype event =
    Print message
  | Start "string option" bool int
  | Put qitem
  | Join
  | System call

fun is_start :: "event \<Rightarrow> bool" where
  "is_start (Start g q b) = True"
| "is_start e = False"

fun is_put :: "event \<Rightarrow> bool" where
  "is_put (Put i) = True"
| "is_put e = False"

fun is_put_task :: "event \<Rightarrow> bool" where
  "is_put_task (Put (Task rt name perms)) = True"
| "is_put_task e = False"

fun is_report :: "event \<Rightarrow> bool" where
  "is_report (Print (Report total' d)) = True"
| "is_report e = False"

fun is_system :: "event \<Rightarrow> bool" where
  "is_system (System c) = True"
| "is_system e = False"

text \<open>\<open>str(x)\<close> of an optional string, as an f-string formats it.\<close>

fun py_str :: "string option \<Rightarrow> string" where
  "py_str None = ''None''"
| "py_str (Some s) = s"

text \<open>
  \<open>Config()\<close>. The lookup \<open>PRESETS[DEFAULT_PRESET]\<close> raises \<open>KeyError\<close> on an unknown
  preset name. The attribute \<open>path\<close> is \<open>None\<close> until \<open>parse_args\<close> assigns \<open>argv[1]\<close>
  to it, which it does before anything reads it: the object is given as a function of
  that path.
\<close>

definition Config :: "env \<Rightarrow> (string \<Rightarrow> config) result" where
  "Config e =
     (case map_of PRESETS (DEFAULT_PRESET e) of
        None \<Rightarrow> Raised KeyError
      | Some (fil, dir) \<Rightarrow>
          Ok (\<lambda>p. \<lparr>path = p, perms_fil = fil, perms_dir = dir, grp = None, set_group = False,
                    ncpus = DEFAULT_CORES e, blocksize = DEFAULT_BLOCKSIZE e, quiet = False\<rparr>))"

text \<open>
  The body of \<open>for arg in argv[2:]\<close>: \<open>Ok (Some c)\<close> goes on with the next argument,
  \<open>Ok None\<close> is \<open>return None\<close>.
\<close>

definition parse_arg :: "env \<Rightarrow> config \<Rightarrow> string \<Rightarrow> event list \<times> config option result" where
  "parse_arg e c arg =
     (if take 2 arg = ''-G'' then
        ([], Ok (Some (c\<lparr>set_group := True,
                         grp := (if arg = ''-G'' then Some (PRIMARY_GROUP e)
                                 else Some (drop 2 arg))\<rparr>)))
      else if take 2 arg = ''-C'' then
        (case py_int e (drop 2 arg) of
           None \<Rightarrow> ([], Raised ValueError)
         | Some n \<Rightarrow> ([], Ok (Some (c\<lparr>ncpus := n\<rparr>))))
      else if take 2 arg = ''-B'' then
        (case py_int e (drop 2 arg) of
           None \<Rightarrow> ([], Raised ValueError)
         | Some n \<Rightarrow> ([], Ok (Some (c\<lparr>blocksize := n\<rparr>))))
      else if arg = ''-q'' then
        ([], Ok (Some (c\<lparr>quiet := True\<rparr>)))
      else if take 2 arg = ''--'' then
        (case map_of PRESETS (drop 2 arg) of
           None \<Rightarrow> ([Print (NoSuchPreset (drop 2 arg))], Ok None)
         | Some (fil, dir) \<Rightarrow> ([], Ok (Some (c\<lparr>perms_fil := fil, perms_dir := dir\<rparr>))))
      else if CHR '':'' \<in> set arg then
        (if length (filter (\<lambda>ch. ch = CHR '':'') arg) = 1
         then ([], Ok (Some (c\<lparr>perms_fil := takeWhile (\<lambda>ch. ch \<noteq> CHR '':'') arg,
                               perms_dir := tl (dropWhile (\<lambda>ch. ch \<noteq> CHR '':'') arg)\<rparr>)))
         else ([Print SplitHint, Print SplitExample], Ok None))
      else
        ([], Ok (Some (c\<lparr>perms_fil := arg, perms_dir := arg\<rparr>))))"

fun parse_loop :: "env \<Rightarrow> config \<Rightarrow> string list \<Rightarrow> event list \<times> config option result" where
  "parse_loop e c [] = ([], Ok (Some c))"
| "parse_loop e c (arg # args) =
     (case parse_arg e c arg of
        (ev, Ok (Some c')) \<Rightarrow> (case parse_loop e c' args of (ev', r) \<Rightarrow> (ev @ ev', r))
      | (ev, r) \<Rightarrow> (ev, r))"

definition parse_args :: "env \<Rightarrow> string list \<Rightarrow> event list \<times> config option result" where
  "parse_args e argv =
     (case Config e of
        Ok config \<Rightarrow>
          (if length argv < 2 then ([], Raised IndexError)
           else if \<not> path_exists e (argv ! 1)
           then ([Print (NoSuchPath (argv ! 1))], SysExit 1)
           else parse_loop e (config (argv ! 1)) (drop 2 argv))
      | SysExit n \<Rightarrow> ([], SysExit n)
      | Raised x \<Rightarrow> ([], Raised x)
      | Blocked \<Rightarrow> ([], Blocked))"

section \<open>The folder run, the single-file run and \<open>main\<close>\<close>

text \<open>
  The tasks the two nested \<open>for\<close> loops over \<open>os.walk(config.path)\<close> put on the queue
  (lines 240-245).
\<close>

definition walk_tasks :: "config \<Rightarrow> (string \<times> string list \<times> string list) list \<Rightarrow> qitem list" where
  "walk_tasks c w =
     concat (map (\<lambda>(rt, dirs, files).
                    Task rt ''.'' (perms_dir c) # map (\<lambda>file. Task rt file (perms_fil c)) files) w)"

text \<open>
  The workers share the queue: which worker dequeues which task is not decided by the
  script. \<open>sched k\<close> names the worker that dequeues the \<open>k\<close>-th task put (taken modulo
  the number of workers); \<open>dispatch n sched i k tasks\<close> is what worker \<open>i\<close> dequeues of
  \<open>tasks\<close>, whose first element is the \<open>k\<close>-th task put.
\<close>

fun dispatch :: "nat \<Rightarrow> (nat \<Rightarrow> nat) \<Rightarrow> nat \<Rightarrow> nat \<Rightarrow> qitem list \<Rightarrow> qitem list" where
  "dispatch n sched i k [] = []"
| "dispatch n sched i k (t # ts) =
     (if sched k mod n = i then t # dispatch n sched i (Suc k) ts
      else dispatch n sched i (Suc k) ts)"

text \<open>
  The list of what each worker returned, or \<open>None\<close> when one of them never returns.
\<close>

fun joined :: "(call list \<times> call list) option list \<Rightarrow> (call list \<times> call list) list option" where
  "joined [] = Some []"
| "joined (None # rs) = None"
| "joined (Some r # rs) = (case joined rs of None \<Rightarrow> None | Some xs \<Rightarrow> Some (r # xs))"

record 'a run =
  events :: "event list"
  workers :: "(call list \<times> call list) list"
  result :: "'a result"

text \<open>
  \<open>fastmod_folder\<close>. Every worker is started before the walk; the tasks are put, then one
  \<open>(None, None, None)\<close> per worker; the queue being first-in first-out, a worker
  dequeues its share of the tasks and then exactly one of these tuples. The report line
  divides \<open>duration\<close> by \<open>total\<close> and \<open>total\<close> by \<open>duration\<close>.
\<close>

definition fastmod_folder :: "env \<Rightarrow> config \<Rightarrow> (nat \<Rightarrow> nat) \<Rightarrow> unit run" where
  "fastmod_folder e c sched =
     (let n = nat (ncpus c);
          group_or_none = (if set_group c then grp c else None);
          tasks = walk_tasks c (os_walk e (path c));
          total' = length tasks;
          started =
            (if \<not> quiet c then [Print (Using (ncpus c) (blocksize c))] else [])
            @ replicate n (Start group_or_none (quiet c) (blocksize c))
            @ map Put tasks @ replicate n (Put Stop)
      in case joined (map (\<lambda>i. worker_main (dispatch n sched i 0 tasks @ [Stop])
                                   group_or_none (quiet c) (blocksize c)) [0..<n]) of
           None \<Rightarrow> \<lparr>events = started, workers = [], result = Blocked\<rparr>
         | Some ws \<Rightarrow>
             (if total' = 0 \<or> elapsed e = 0
              then \<lparr>events = started @ replicate n Join, workers = ws,
                    result = Raised ZeroDivisionError\<rparr>
              else \<lparr>events = started @ replicate n Join @ [Print (Report total' (elapsed e))],
                    workers = ws, result = Ok ()\<rparr>))"

definition fastmod_file :: "config \<Rightarrow> unit run" where
  "fastmod_file c =
     \<lparr>events = [System (Chmod False (perms_fil c) [path c])]
               @ (if set_group c then [System (Chgrp False (py_str (grp c)) [path c])] else [])
               @ [Print Done],
      workers = [], result = Ok ()\<rparr>"

text \<open>The part of \<open>main\<close> that follows a successful \<open>parse_args\<close> (lines 277-288).\<close>

definition main_run :: "env \<Rightarrow> config \<Rightarrow> (nat \<Rightarrow> nat) \<Rightarrow> int run" where
  "main_run e c sched =
     (let shown =
            (if \<not> quiet c
             then [Print (SettingFile (perms_fil c)), Print (SettingDirectory (perms_dir c))]
                  @ (if set_group c then [Print (SettingGroup (py_str (grp c)))] else [])
             else []);
          r = (if path_isdir e (path c) then fastmod_folder e c sched else fastmod_file c)
      in \<lparr>events = shown @ events r, workers = workers r,
          result = (case result r of Ok u \<Rightarrow> Ok 0 | SysExit n \<Rightarrow> SysExit n
                                   | Raised x \<Rightarrow> Raised x | Blocked \<Rightarrow> Blocked)\<rparr>)"

definition main :: "env \<Rightarrow> string list \<Rightarrow> (nat \<Rightarrow> nat) \<Rightarrow> int run" where
  "main e argv sched =
     (if length argv \<le> 1 then \<lparr>events = [Print Help], workers = [], result = Ok 1\<rparr>
      else case parse_args e argv of
        (ev, Ok None) \<Rightarrow> \<lparr>events = ev, workers = [], result = Ok 1\<rparr>
      | (ev, Ok (Some c)) \<Rightarrow>
          (let r = main_run e c sched in r\<lparr>events := ev @ events r\<rparr>)
      | (ev, SysExit n) \<Rightarrow> \<lparr>events = ev, workers = [], result = SysExit n\<rparr>
      | (ev, Raised x) \<Rightarrow> \<lparr>events = ev, workers = [], result = Raised x\<rparr>
      | (ev, Blocked) \<Rightarrow> \<lparr>events = ev, workers = [], result = Blocked\<rparr>)"

text \<open>
  The exit status of the process: \<open>sys.exit(main(sys.argv))\<close>, and status 1 for an
  exception that nothing catches.
\<close>

fun exit_status :: "int result \<Rightarrow> int option" where
  "exit_status (Ok n) = Some n"
| "exit_status (SysExit n) = Some n"
| "exit_status (Raised x) = Some 1"
| "exit_status Blocked = None"

section \<open>Directory trees and \<open>os.walk\<close>\<close>

text \<open>
  What \<open>os.walk\<close> meets at a path that is a directory. \<open>Unlistable\<close> is a directory
  that \<open>scandir\<close> cannot read. \<open>Dir nondirs subs\<close> is a directory that can be listed:
  \<open>nondirs\<close> are its entries for which \<open>is_dir()\<close> is false, by name, each a regular file
  or something else (a symbolic link to a file, a broken link, a FIFO, a socket, a
  device); \<open>subs\<close> are its entries for which \<open>is_dir()\<close> is true, by name, each with
  whether it is a symbolic link to a directory and with the directory found there.
\<close>

datatype entry_kind = RegularFile | OtherEntry

datatype tree = Dir "(string \<times> entry_kind) list" "(string \<times> bool \<times> tree) list" | Unlistable

text \<open>\<open>os.path.join\<close> of two components (posixpath).\<close>

definition path_join :: "string \<Rightarrow> string \<Rightarrow> string" where
  "path_join a b =
     (if take 1 b = ''/'' then b
      else if a = [] \<or> last a = CHR ''/'' then a @ b
      else a @ ''/'' @ b)"

text \<open>
  \<open>os.walk(top)\<close>, top-down, with \<open>onerror=None\<close> and \<open>followlinks=False\<close>: nothing is
  yielded for a directory that cannot be listed; a symbolic link to a directory is named
  in \<open>dirs\<close> and not gone into. \<open>fastmod_folder\<close> does not read \<open>dirs\<close>.
\<close>

fun walk :: "string \<Rightarrow> tree \<Rightarrow> (string \<times> string list \<times> string list) list" where
  "walk topdir (Dir nondirs subs) =
     (topdir, map fst subs, map fst nondirs)
     # concat (map (\<lambda>(name, islink, t). if islink then [] else walk (path_join topdir name) t)
                   subs)"
| "walk topdir Unlistable = []"

text \<open>
  The directories of a tree, the root among them: a symbolic link is not one, and what
  an unlistable directory holds is not part of the tree.
\<close>

fun count_dirs :: "tree \<Rightarrow> nat" where
  "count_dirs (Dir nondirs subs) =
     Suc (sum_list (map (\<lambda>(name, islink, t). if islink then 0 else count_dirs t) subs))"
| "count_dirs Unlistable = 1"

text \<open>The regular files of a tree.\<close>

fun count_files :: "tree \<Rightarrow> nat" where
  "count_files (Dir nondirs subs) =
     length (filter (\<lambda>(name, kind). kind = RegularFile) nondirs)
     + sum_list (map (\<lambda>(name, islink, t). if islink then 0 else count_files t) subs)"
| "count_files Unlistable = 0"

text \<open>Every directory of the tree can be listed.\<close>

fun all_listable :: "tree \<Rightarrow> bool" where
  "all_listable (Dir nondirs subs) =
     list_all (\<lambda>(name, islink, t). islink \<or> all_listable t) subs"
| "all_listable Unlistable = False"

text \<open>Every entry of the tree that \<open>os.walk\<close> does not take for a directory is a regular file.\<close>

fun all_regular :: "tree \<Rightarrow> bool" where
  "all_regular (Dir nondirs subs) =
     (list_all (\<lambda>(name, kind). kind = RegularFile) nondirs
      \<and> list_all (\<lambda>(name, islink, t). islink \<or> all_regular t) subs)"
| "all_regular Unlistable = True"

text \<open>
  What a file system guarantees of a directory: an entry name is not empty, has no
  \<open>/\<close> in it and is neither \<open>.\<close> nor \<open>..\<close>, and no two entries of a directory share
  a name.
\<close>

definition valid_name :: "string \<Rightarrow> bool" where
  "valid_name n = (n \<noteq> [] \<and> CHR ''/'' \<notin> set n \<and> n \<noteq> ''.'' \<and> n \<noteq> ''..'')"

fun wf_tree :: "tree \<Rightarrow> bool" where
  "wf_tree (Dir nondirs subs) =
     (distinct (map fst nondirs @ map fst subs)
      \<and> list_all valid_name (map fst nondirs @ map fst subs)
      \<and> list_all (\<lambda>(name, islink, t). islink \<or> wf_tree t) subs)"
| "wf_tree Unlistable = True"

section \<open>Notions the properties are stated with\<close>

text \<open>The number of paths a buffer holds, over all its groups.\<close>

fun buffered_total :: "buffer \<Rightarrow> nat" where
  "buffered_total [] = 0"
| "buffered_total ((k, s) # b) = length s + buffered_total b"

text \<open>The paths a buffer holds.\<close>

fun buffer_paths :: "buffer \<Rightarrow> string set" where
  "buffer_paths [] = {}"
| "buffer_paths ((k, s) # b) = set s \<union> buffer_paths b"

text \<open>Every group of the buffer holds fewer than \<open>B\<close> paths.\<close>

fun groups_below :: "int \<Rightarrow> buffer \<Rightarrow> bool" where
  "groups_below B [] = True"
| "groups_below B ((k, s) # b) = (int (length s) < B \<and> groups_below B b)"

text \<open>No group of the buffer holds a path twice.\<close>

fun groups_distinct :: "buffer \<Rightarrow> bool" where
  "groups_distinct [] = True"
| "groups_distinct ((k, s) # b) = (distinct s \<and> groups_distinct b)"

text \<open>The resolved paths of the tasks a worker dequeues before its first \<open>(None, None, None)\<close>.\<close>

fun consumed_paths :: "qitem list \<Rightarrow> string list" where
  "consumed_paths [] = []"
| "consumed_paths (Stop # items) = []"
| "consumed_paths (Task rt name perms # items) = resolve rt name # consumed_paths items"

text \<open>\<open>path\<close> as lines 75-78 compute it from a queue item.\<close>

fun task_path :: "qitem \<Rightarrow> string" where
  "task_path (Task rt name perms) = resolve rt name"
| "task_path Stop = ''None/None''"

text \<open>The resolved paths of the tasks of a walk, in the order they are put.\<close>

fun walk_paths :: "string \<Rightarrow> tree \<Rightarrow> string list" where
  "walk_paths topdir (Dir nondirs subs) =
     topdir # map (\<lambda>(f, kind). topdir @ ''/'' @ f) nondirs
     @ concat (map (\<lambda>(name, islink, t). if islink then [] else walk_paths (path_join topdir name) t)
                   subs)"
| "walk_paths topdir Unlistable = []"

text \<open>\<open>x\<close> is \<open>q\<close> or continues \<open>q\<close> with a \<open>/\<close>.\<close>

definition under :: "string \<Rightarrow> string \<Rightarrow> bool" where
  "under q x = (take (length q) x = q
                \<and> (drop (length q) x = [] \<or> hd (drop (length q) x) = CHR ''/''))"

text \<open>What follows the prefix \<open>pre\<close> in \<open>x\<close>, up to the next \<open>/\<close>.\<close>

definition stem :: "string \<Rightarrow> string \<Rightarrow> string" where
  "stem pre x = takeWhile (\<lambda>ch. ch \<noteq> CHR ''/'') (drop (length pre) x)"

text \<open>The separator \<open>os.path.join\<close> inserts after its first component.\<close>

definition sep :: "string \<Rightarrow> string" where
  "sep topdir = (if topdir = [] \<or> last topdir = CHR ''/'' then [] else ''/'')"

text \<open>
  The sum of the sizes of all batches flushed by all workers, in the loop and in the drain.
\<close>

definition flushed_total :: "(call list \<times> call list) list \<Rightarrow> nat" where
  "flushed_total ws = sum_list (map (\<lambda>(cs, ds). sum_list (batch_sizes (cs @ ds))) ws)"

text \<open>
  A list of calls made of batches, each a \<open>chgrp\<close> to group \<open>g\<close> followed at once by a
  \<open>chmod\<close> over the same paths.
\<close>

fun owner_first :: "bool \<Rightarrow> string \<Rightarrow> call list \<Rightarrow> bool" where
  "owner_first q g [] = True"
| "owner_first q g (Chgrp q1 g1 ps1 # Chmod q2 perms ps2 # cs) =
     (q1 = q \<and> q2 = q \<and> g1 = g \<and> ps2 = ps1 \<and> owner_first q g cs)"
| "owner_first q g cs = False"

text \<open>
  The permission string and the paths of the \<open>chmod\<close> calls of a list of calls, one pair
  for each path of each call, in order.
\<close>

fun call_pairs :: "call \<Rightarrow> (string \<times> string) list" where
  "call_pairs (Chmod q perms ps) = map (Pair perms) ps"
| "call_pairs (Chgrp q g ps) = []"

definition chmod_pairs :: "call list \<Rightarrow> (string \<times> string) list" where
  "chmod_pairs cs = concat (map call_pairs cs)"

text \<open>The permission string and path of everything a buffer holds.\<close>

fun buffer_pairs :: "buffer \<Rightarrow> (string \<times> string) list" where
  "buffer_pairs [] = []"
| "buffer_pairs ((k, s) # b) = map (Pair k) s @ buffer_pairs b"

text \<open>
  The permission string and resolved path of the tasks a worker dequeues before its first
  \<open>(None, None, None)\<close>.
\<close>

fun consumed_pairs :: "qitem list \<Rightarrow> (string \<times> string) list" where
  "consumed_pairs [] = []"
| "consumed_pairs (Stop # items) = []"
| "consumed_pairs (Task rt name perms # items) = (perms, resolve rt name) # consumed_pairs items"

text \<open>The paths of all \<open>chmod\<close> calls of all workers, in the loop and in the drain.\<close>

definition flushed_paths :: "(call list \<times> call list) list \<Rightarrow> string list" where
  "flushed_paths ws = concat (map (\<lambda>(cs, ds). map snd (chmod_pairs (cs @ ds))) ws)"

section \<open>Example inputs\<close>

definition ex_tree :: tree where
  "ex_tree =
     Dir [(''a'', RegularFile), (''b'', RegularFile)]
         [(''s'', False, Dir [(''c'', RegularFile)] [])]"

text \<open>
  An instance of \<open>int\<close> for the examples: decimal digits with an optional minus sign;
  every other string is a \<open>ValueError\<close> here.
\<close>

fun digits_val :: "string \<Rightarrow> nat \<Rightarrow> nat option" where
  "digits_val [] acc = Some acc"
| "digits_val (ch # s) acc =
     (if 48 \<le> (of_char ch :: nat) \<and> (of_char ch :: nat) \<le> 57
      then digits_val s (10 * acc + (of_char ch - 48)) else None)"

definition ex_int :: "string \<Rightarrow> int option" where
  "ex_int s =
     (case s of
        [] \<Rightarrow> None
      | ch # r \<Rightarrow>
          (if ch = CHR ''-''
           then (if r = [] then None else map_option (\<lambda>n. - int n) (digits_val r 0))
           else map_option int (digits_val s 0)))"

definition ex_env :: env where
  "ex_env =
     \<lparr>DEFAULT_BLOCKSIZE = 128, DEFAULT_CORES = 3, DEFAULT_PRESET = ''baseline'',
      PRIMARY_GROUP = ''staff'',
      path_exists = (\<lambda>p. p = ''d'' \<or> p = ''f''), path_isdir = (\<lambda>p. p = ''d''),
      os_walk = (\<lambda>p. walk p ex_tree), py_int = ex_int, elapsed = 2\<rparr>"

definition ex_cfg :: config where
  "ex_cfg =
     \<lparr>path = ''d'', perms_fil = ''u+rw'', perms_dir = ''u+rwx'', grp = Some ''staff'',
      set_group = True, ncpus = 2, blocksize = 2, quiet = False\<rparr>"

text \<open>
  The same environment with a directory \<open>d\<close> that cannot be listed: \<open>os.walk\<close> ignores
  the error of \<open>scandir\<close> and yields nothing.
\<close>

definition ex_unlistable_env :: env where
  "ex_unlistable_env = ex_env\<lparr>os_walk := (\<lambda>p. walk p Unlistable)\<rparr>"

text \<open>
  The directory \<open>d\<close> holding one directory that cannot be listed, and the directory \<open>d\<close>
  holding one FIFO; the example environment over a given tree.
\<close>

definition ex_tree_unlistable_sub :: tree where
  "ex_tree_unlistable_sub = Dir [] [(''s'', False, Unlistable)]"

definition ex_tree_fifo :: tree where
  "ex_tree_fifo = Dir [(''p'', OtherEntry)] []"

definition ex_env_on :: "tree \<Rightarrow> env" where
  "ex_env_on t = ex_env\<lparr>os_walk := (\<lambda>p. walk p t)\<rparr>"

text \<open>The configurations \<open>parse_args\<close> builds from the command lines of the examples.\<close>

definition ex_file_cfg :: config where
  "ex_file_cfg =
     \<lparr>path = ''f'', perms_fil = ''u+rw,g+r-w,o+r-w'', perms_dir = ''u+rwx,g+rxs-w,o+rx-w'',
      grp = Some ''users'', set_group = True, ncpus = 3, blocksize = 128, quiet = False\<rparr>"

definition ex_parsed_cfg :: config where
  "ex_parsed_cfg =
     \<lparr>path = ''d'', perms_fil = ''u+rw,g+r-w,o+r-w'', perms_dir = ''u+rwx,g+rxs-w,o+rx-w'',
      grp = None, set_group = False, ncpus = 1, blocksize = 0, quiet = False\<rparr>"

definition ex_default_cfg :: config where
  "ex_default_cfg =
     \<lparr>path = ''d'', perms_fil = ''u+rw,g+r-w,o+r-w'', perms_dir = ''u+rwx,g+rxs-w,o+rx-w'',
      grp = None, set_group = False, ncpus = 3, blocksize = 128, quiet = False\<rparr>"

section \<open>Properties\<close>

lemma get_setdefault_add: "buffer_get (setdefault_add p x b) p = set_add x (buffer_get b p)"
  by (induction p x b rule: setdefault_add.induct) auto

lemma get_add_nonempty: "buffer_get (setdefault_add p x b) p \<noteq> []"
  by (auto simp: get_setdefault_add set_add_def)

lemma keys_setdefault_add: "set (map fst (setdefault_add p x b)) = insert p (set (map fst b))"
  by (induction p x b rule: setdefault_add.induct) auto

lemma distinct_keys_add: "distinct (map fst b) \<Longrightarrow> distinct (map fst (setdefault_add p x b))"
proof (induction p x b rule: setdefault_add.induct)
  case (1 perms path)
  then show ?case by simp
next
  case (2 perms path k s b)
  then show ?case using keys_setdefault_add[of perms path b] by auto
qed

lemma keys_buffer_clear: "map fst (buffer_clear p b) = map fst b"
  by (induction p b rule: buffer_clear.induct) auto

lemma groups_distinct_add: "groups_distinct b \<Longrightarrow> groups_distinct (setdefault_add p x b)"
  by (induction p x b rule: setdefault_add.induct) (auto simp: set_add_def)

lemma groups_distinct_clear: "groups_distinct b \<Longrightarrow> groups_distinct (buffer_clear p b)"
  by (induction p b rule: buffer_clear.induct) auto

lemma groups_distinct_get: "groups_distinct b \<Longrightarrow> distinct (buffer_get b p)"
  by (induction b p rule: buffer_get.induct) auto

lemma total_add:
  "x \<notin> buffer_paths b \<Longrightarrow> buffered_total (setdefault_add p x b) = Suc (buffered_total b)"
  by (induction p x b rule: setdefault_add.induct) (auto simp: set_add_def)

lemma total_clear:
  "buffered_total (buffer_clear p b) + length (buffer_get b p) = buffered_total b"
  by (induction p b rule: buffer_clear.induct) auto

lemma paths_add: "buffer_paths (setdefault_add p x b) = insert x (buffer_paths b)"
  by (induction p x b rule: setdefault_add.induct) (auto simp: set_add_def)

lemma paths_clear: "buffer_paths (buffer_clear p b) \<subseteq> buffer_paths b"
  by (induction p b rule: buffer_clear.induct) auto

lemma below_get: "groups_below B b \<Longrightarrow> 1 \<le> B \<Longrightarrow> int (length (buffer_get b p)) < B"
  by (induction b p rule: buffer_get.induct) auto

lemma below_get_add:
  "groups_below B b \<Longrightarrow> 1 \<le> B \<Longrightarrow> int (length (buffer_get (setdefault_add p x b) p)) \<le> B"
  using below_get[of B b p] by (simp add: get_setdefault_add set_add_def)

lemma below_add_keep:
  "groups_below B b \<Longrightarrow> \<not> B \<le> int (length (buffer_get (setdefault_add p x b) p)) \<Longrightarrow>
   groups_below B (setdefault_add p x b)"
  by (induction p x b rule: setdefault_add.induct) (auto simp: set_add_def split: if_splits)

lemma below_clear:
  "groups_below B b \<Longrightarrow> 1 \<le> B \<Longrightarrow> groups_below B (buffer_clear p b)"
  by (induction p b rule: buffer_clear.induct) auto

lemma below_clear_add:
  "groups_below B b \<Longrightarrow> 1 \<le> B \<Longrightarrow> groups_below B (buffer_clear p (setdefault_add p x b))"
  by (induction p x b rule: setdefault_add.induct) (auto simp: set_add_def below_clear)

lemma batch_sizes_Nil: "batch_sizes [] = []"
  by (simp add: batch_sizes_def)

lemma batch_sizes_append: "batch_sizes (cs @ ds) = batch_sizes cs @ batch_sizes ds"
  by (simp add: batch_sizes_def)

lemma batch_sizes_flush: "batch_sizes (flush g q p s) = [length s]"
  by (simp add: batch_sizes_def flush_def split: option.splits)

lemma step_account:
  assumes "resolve rt name \<notin> buffer_paths b"
    and "worker_step g q B b rt name p = (cs, b')"
  shows "sum_list (batch_sizes cs) + buffered_total b' = Suc (buffered_total b)"
    and "buffer_paths b' \<subseteq> insert (resolve rt name) (buffer_paths b)"
proof -
  let ?x = "resolve rt name"
  let ?b1 = "setdefault_add p ?x b"
  have t: "buffered_total ?b1 = Suc (buffered_total b)"
    using assms(1) by (rule total_add)
  show "sum_list (batch_sizes cs) + buffered_total b' = Suc (buffered_total b)"
  proof (cases "B \<le> int (length (buffer_get ?b1 p))")
    case True
    with assms(2) have "cs = flush g q p (buffer_get ?b1 p)" "b' = buffer_clear p ?b1"
      by (simp_all add: worker_step_def Let_def)
    then show ?thesis using total_clear[of p ?b1] t by (simp add: batch_sizes_flush)
  next
    case False
    with assms(2) have "cs = []" "b' = ?b1"
      by (simp_all add: worker_step_def Let_def)
    then show ?thesis using t by (simp add: batch_sizes_Nil)
  qed
  show "buffer_paths b' \<subseteq> insert ?x (buffer_paths b)"
  proof (cases "B \<le> int (length (buffer_get ?b1 p))")
    case True
    with assms(2) have "b' = buffer_clear p ?b1"
      by (simp_all add: worker_step_def Let_def)
    then show ?thesis using paths_clear[of p ?b1] by (simp add: paths_add)
  next
    case False
    with assms(2) have "b' = ?b1"
      by (simp_all add: worker_step_def Let_def)
    then show ?thesis by (simp add: paths_add)
  qed
qed

lemma loop_account:
  "worker_loop g q B b items = Some (cs, b') \<Longrightarrow> distinct (consumed_paths items) \<Longrightarrow>
   set (consumed_paths items) \<inter> buffer_paths b = {} \<Longrightarrow>
   sum_list (batch_sizes cs) + buffered_total b' = buffered_total b + length (consumed_paths items)"
proof (induction g q B b items arbitrary: cs b' rule: worker_loop.induct)
  case (1 g q B b)
  then show ?case by simp
next
  case (2 g q B b items)
  then show ?case by (simp add: batch_sizes_Nil)
next
  case (3 g q B b rt name p items)
  obtain cs1 b1 where st: "worker_step g q B b rt name p = (cs1, b1)"
    by (cases "worker_step g q B b rt name p")
  with "3.prems"(1) obtain cs2 where lp: "worker_loop g q B b1 items = Some (cs2, b')"
    and cs: "cs = cs1 @ cs2"
    by (auto split: option.splits)
  have fresh: "resolve rt name \<notin> buffer_paths b"
    using "3.prems"(3) by auto
  note acc = step_account[OF fresh st]
  have d: "distinct (consumed_paths items)" using "3.prems"(2) by simp
  have dj: "set (consumed_paths items) \<inter> buffer_paths b1 = {}"
    using "3.prems"(2,3) acc(2) by auto
  have "sum_list (batch_sizes cs2) + buffered_total b' = buffered_total b1 + length (consumed_paths items)"
    using "3.IH"[OF st[symmetric] lp d dj] .
  then show ?case using acc(1) cs by (simp add: batch_sizes_append)
qed

lemma drain_account: "sum_list (batch_sizes (worker_drain g q b)) = buffered_total b"
  by (induction g q b rule: worker_drain.induct)
     (simp_all add: batch_sizes_Nil batch_sizes_append batch_sizes_flush)

lemma main_account:
  assumes "worker_main items g q B = Some (cs, ds)" and "distinct (consumed_paths items)"
  shows "sum_list (batch_sizes (cs @ ds)) = length (consumed_paths items)"
proof -
  from assms(1) obtain b where lp: "worker_loop g q B [] items = Some (cs, b)"
    and ds: "ds = worker_drain g q b"
    by (auto simp: worker_main_def split: option.splits)
  from loop_account[OF lp assms(2)] show ?thesis
    by (simp add: ds batch_sizes_append drain_account)
qed

lemma loop_returns: "Stop \<in> set items \<Longrightarrow> \<exists>r. worker_loop g q B b items = Some r"
  by (induction g q B b items rule: worker_loop.induct) (auto split: prod.splits option.splits)

lemma walk_tasks_Nil: "walk_tasks c [] = []"
  by (simp add: walk_tasks_def)

lemma walk_tasks_Cons:
  "walk_tasks c ((rt, dirs, files) # w) =
     Task rt ''.'' (perms_dir c) # map (\<lambda>file. Task rt file (perms_fil c)) files @ walk_tasks c w"
  by (simp add: walk_tasks_def)

lemma walk_tasks_append: "walk_tasks c (v @ w) = walk_tasks c v @ walk_tasks c w"
  by (simp add: walk_tasks_def)

lemma walk_tasks_concat: "walk_tasks c (concat ws) = concat (map (walk_tasks c) ws)"
  by (induction ws) (simp_all add: walk_tasks_Nil walk_tasks_append)

lemma length_concat_subs:
  "(\<And>x. x \<in> set subs \<Longrightarrow> length (f x) = g x + h x) \<Longrightarrow>
   length (concat (map f subs)) = sum_list (map g subs) + sum_list (map h subs)"
proof (induction subs)
  case Nil
  then show ?case by simp
next
  case (Cons a subs)
  have "length (f a) = g a + h a" using Cons.prems[of a] by simp
  moreover have "length (concat (map f subs)) = sum_list (map g subs) + sum_list (map h subs)"
    by (rule Cons.IH) (simp add: Cons.prems)
  ultimately show ?case by simp
qed

lemma all_listable_sub:
  assumes "all_listable (Dir nondirs subs)" and "(n, False, t) \<in> set subs"
  shows "all_listable t"
proof -
  have "\<forall>x\<in>set subs. case x of (name, islink, t) \<Rightarrow> islink \<or> all_listable t"
    using assms(1) by (simp add: list_all_iff)
  then have "case (n, False, t) of (name, islink, t) \<Rightarrow> islink \<or> all_listable t"
    using assms(2) by blast
  then show ?thesis by simp
qed

lemma all_regular_sub:
  assumes "all_regular (Dir nondirs subs)" and "(n, False, t) \<in> set subs"
  shows "all_regular t"
proof -
  have "\<forall>x\<in>set subs. case x of (name, islink, t) \<Rightarrow> islink \<or> all_regular t"
    using assms(1) by (simp add: list_all_iff)
  then have "case (n, False, t) of (name, islink, t) \<Rightarrow> islink \<or> all_regular t"
    using assms(2) by blast
  then show ?thesis by simp
qed

lemma length_walk_tasks:
  "all_listable t \<Longrightarrow> all_regular t \<Longrightarrow>
   length (walk_tasks c (walk topdir t)) = count_files t + count_dirs t"
proof (induction topdir t rule: walk.induct)
  case (1 topdir nondirs subs)
  let ?f = "\<lambda>(name, islink, t). if islink then [] else walk_tasks c (walk (path_join topdir name) t)"
  let ?g = "\<lambda>(name, islink, t). if islink then 0 else count_files t"
  let ?h = "\<lambda>(name, islink, t). if islink then 0 else count_dirs t"
  have s: "length (?f x) = ?g x + ?h x" if "x \<in> set subs" for x
  proof -
    obtain n l t where x: "x = (n, l, t)" by (cases x)
    show ?thesis
    proof (cases l)
      case True
      then show ?thesis by (simp add: x)
    next
      case False
      have m: "(n, False, t) \<in> set subs" using that x False by simp
      have "length (walk_tasks c (walk (path_join topdir n) t)) = count_files t + count_dirs t"
        using "1.IH"[OF that x[symmetric] refl False]
          all_listable_sub[OF "1.prems"(1) m] all_regular_sub[OF "1.prems"(2) m] x False
        by simp
      then show ?thesis by (simp add: x False)
    qed
  qed
  have sub: "length (concat (map ?f subs)) = sum_list (map ?g subs) + sum_list (map ?h subs)"
    using s by (rule length_concat_subs)
  have e: "walk_tasks c (concat (map (\<lambda>(name, islink, t).
               if islink then [] else walk (path_join topdir name) t) subs))
           = concat (map ?f subs)"
    by (simp add: walk_tasks_concat comp_def case_prod_unfold if_distrib walk_tasks_Nil cong: if_cong)
  have r: "length (filter (\<lambda>(name, kind). kind = RegularFile) nondirs) = length nondirs"
    using "1.prems"(2) by (simp add: list_all_iff case_prod_unfold)
  show ?case using sub r by (simp add: walk_tasks_Cons e)
next
  case (2 topdir)
  then show ?case by simp
qed

lemma no_Stop_walk_tasks: "Stop \<notin> set (walk_tasks c w)"
  by (auto simp: walk_tasks_def)

lemma wf_tree_sub:
  assumes "wf_tree (Dir nondirs subs)" and "(n, l, t) \<in> set subs"
  shows "valid_name n"
proof -
  have "\<forall>x\<in>set subs. valid_name (fst x)"
    using assms(1) by (simp add: list_all_iff)
  then have "valid_name (fst (n, l, t))" using assms(2) by blast
  then show ?thesis by simp
qed

lemma wf_tree_real_sub:
  assumes "wf_tree (Dir nondirs subs)" and "(n, False, t) \<in> set subs"
  shows "wf_tree t"
proof -
  have "\<forall>x\<in>set subs. case x of (name, islink, t) \<Rightarrow> islink \<or> wf_tree t"
    using assms(1) by (simp add: list_all_iff)
  then have "case (n, False, t) of (name, islink, t) \<Rightarrow> islink \<or> wf_tree t"
    using assms(2) by blast
  then show ?thesis by simp
qed

lemma wf_tree_file:
  assumes "wf_tree (Dir nondirs subs)" and "(f, k) \<in> set nondirs"
  shows "valid_name f"
proof -
  have "\<forall>x\<in>set nondirs. valid_name (fst x)"
    using assms(1) by (simp add: list_all_iff)
  then have "valid_name (fst (f, k))" using assms(2) by blast
  then show ?thesis by simp
qed

lemma map_concat_subs:
  "(\<And>x. x \<in> set subs \<Longrightarrow> map k (f x) = g x) \<Longrightarrow>
   map k (concat (map f subs)) = concat (map g subs)"
  by (induction subs) simp_all

lemma paths_walk_tasks:
  "wf_tree t \<Longrightarrow> map task_path (walk_tasks c (walk topdir t)) = walk_paths topdir t"
proof (induction topdir t rule: walk.induct)
  case (1 topdir nondirs subs)
  let ?f = "\<lambda>(name, islink, t). if islink then [] else walk_tasks c (walk (path_join topdir name) t)"
  let ?g = "\<lambda>(name, islink, t). if islink then [] else walk_paths (path_join topdir name) t"
  have "task_path (Task topdir (fst x) (perms_fil c)) = (case x of (f, kind) \<Rightarrow> topdir @ ''/'' @ f)"
    if "x \<in> set nondirs" for x
  proof -
    obtain f k where x: "x = (f, k)" by (cases x)
    show ?thesis using wf_tree_file[OF "1.prems", of f k] that x
      by (simp add: resolve_def valid_name_def)
  qed
  then have f: "map task_path (map (\<lambda>fl. Task topdir fl (perms_fil c)) (map fst nondirs))
           = map (\<lambda>(f, kind). topdir @ ''/'' @ f) nondirs"
    by simp
  have s: "map task_path (?f x) = ?g x" if "x \<in> set subs" for x
  proof -
    obtain n l t where x: "x = (n, l, t)" by (cases x)
    show ?thesis
    proof (cases l)
      case True
      then show ?thesis by (simp add: x)
    next
      case False
      have m: "(n, False, t) \<in> set subs" using that x False by simp
      show ?thesis
        using "1.IH"[OF that x[symmetric] refl False] wf_tree_real_sub[OF "1.prems" m] x False
        by simp
    qed
  qed
  have sub: "map task_path (concat (map ?f subs)) = concat (map ?g subs)"
    using s by (rule map_concat_subs)
  have e: "walk_tasks c (concat (map (\<lambda>(name, islink, t).
               if islink then [] else walk (path_join topdir name) t) subs))
           = concat (map ?f subs)"
    by (simp add: walk_tasks_concat comp_def case_prod_unfold if_distrib walk_tasks_Nil cong: if_cong)
  show ?case using f sub by (simp add: walk_tasks_Cons e resolve_def)
next
  case (2 topdir)
  then show ?case by (simp add: walk_tasks_Nil)
qed

lemma under_iff: "under q x \<longleftrightarrow> (\<exists>r. x = q @ r \<and> (r = [] \<or> hd r = CHR ''/''))"
proof
  assume "under q x"
  then have "x = q @ drop (length q) x"
    and "drop (length q) x = [] \<or> hd (drop (length q) x) = CHR ''/''"
    unfolding under_def by (metis append_take_drop_id, blast)
  then show "\<exists>r. x = q @ r \<and> (r = [] \<or> hd r = CHR ''/'')" by blast
next
  assume "\<exists>r. x = q @ r \<and> (r = [] \<or> hd r = CHR ''/'')"
  then show "under q x" unfolding under_def by auto
qed

lemma under_refl: "under q q"
  by (simp add: under_iff)

lemma under_child: "under (q @ ''/'' @ n) x \<Longrightarrow> under q x"
  unfolding under_iff by auto

lemma under_length: "under q x \<Longrightarrow> length q \<le> length x"
  unfolding under_iff by auto

lemma stem_under:
  assumes "CHR ''/'' \<notin> set n" and "under (pre @ n) x"
  shows "stem pre x = n"
proof -
  from assms(2) obtain r where x: "x = pre @ n @ r" and r: "r = [] \<or> hd r = CHR ''/''"
    unfolding under_iff by auto
  have "takeWhile (\<lambda>ch. ch \<noteq> CHR ''/'') r = []"
    using r by (cases r) auto
  moreover have "takeWhile (\<lambda>ch. ch \<noteq> CHR ''/'') (n @ r)
                 = n @ takeWhile (\<lambda>ch. ch \<noteq> CHR ''/'') r"
    by (rule takeWhile_append2) (use assms(1) in auto)
  ultimately have "takeWhile (\<lambda>ch. ch \<noteq> CHR ''/'') (n @ r) = n"
    by simp
  then show ?thesis by (simp add: stem_def x)
qed

lemma path_join_valid: "valid_name n \<Longrightarrow> path_join topdir n = topdir @ sep topdir @ n"
  by (cases n) (auto simp: path_join_def sep_def valid_name_def)

lemma sep_join:
  assumes "valid_name n"
  shows "sep (topdir @ sep topdir @ n) = ''/''"
proof -
  have n: "n \<noteq> []" and s: "CHR ''/'' \<notin> set n"
    using assms by (simp_all add: valid_name_def)
  have "last n \<in> set n" using n by (rule last_in_set)
  then have "last n \<noteq> CHR ''/''" using s by auto
  then show ?thesis using n by (simp add: sep_def)
qed

lemma sub_paths_cases:
  assumes "x \<in> set (concat (map (\<lambda>(name, islink, t).
              if islink then [] else walk_paths (path_join q name) t) subs))"
  obtains n t where "(n, False, t) \<in> set subs" "x \<in> set (walk_paths (path_join q n) t)"
proof -
  from assms obtain n l t where m: "(n, l, t) \<in> set subs"
    and x: "x \<in> set (if l then [] else walk_paths (path_join q n) t)"
    by auto
  have "\<not> l" using x by (cases l) auto
  then show ?thesis using m x that[of n t] by simp
qed

lemma walk_paths_cases:
  assumes "x \<in> set (walk_paths q (Dir nondirs subs))"
  obtains "x = q"
  | f k where "(f, k) \<in> set nondirs" "x = q @ ''/'' @ f"
  | n t where "(n, False, t) \<in> set subs" "x \<in> set (walk_paths (path_join q n) t)"
proof -
  from assms have "x = q \<or> x \<in> set (map (\<lambda>(f, kind). q @ ''/'' @ f) nondirs)
    \<or> x \<in> set (concat (map (\<lambda>(name, islink, t).
          if islink then [] else walk_paths (path_join q name) t) subs))"
    by (simp only: walk_paths.simps set_simps set_append Un_iff insert_iff)
  then consider "x = q" | "x \<in> set (map (\<lambda>(f, kind). q @ ''/'' @ f) nondirs)"
    | "x \<in> set (concat (map (\<lambda>(name, islink, t).
          if islink then [] else walk_paths (path_join q name) t) subs))"
    by blast
  then show ?thesis
  proof cases
    case 1
    then show ?thesis by (rule that(1))
  next
    case 2
    then obtain p where p: "p \<in> set nondirs" and x: "x = (case p of (f, kind) \<Rightarrow> q @ ''/'' @ f)"
      by auto
    obtain f k where pk: "p = (f, k)" by (cases p)
    show ?thesis using that(2)[of f k] p x pk by simp
  next
    case 3
    then show ?thesis using that(3) by (rule sub_paths_cases)
  qed
qed

lemma under_walk_paths:
  "wf_tree t \<Longrightarrow> sep q = ''/'' \<Longrightarrow> x \<in> set (walk_paths q t) \<Longrightarrow> under q x"
proof (induction q t arbitrary: x rule: walk_paths.induct)
  case (1 q nondirs subs)
  from "1.prems"(3) show ?case
  proof (cases rule: walk_paths_cases)
    case 1
    then show ?thesis by (simp add: under_refl)
  next
    case (2 f k)
    then show ?thesis by (auto simp: under_iff)
  next
    case (3 n t)
    have v: "valid_name n" using wf_tree_sub[OF "1.prems"(1) 3(1)] .
    have w: "wf_tree t" using wf_tree_real_sub[OF "1.prems"(1) 3(1)] .
    have j: "path_join q n = q @ ''/'' @ n"
      using v "1.prems"(2) by (simp add: path_join_valid)
    have "sep (path_join q n) = ''/''"
      using sep_join[OF v, of q] "1.prems"(2) j by simp
    then have "under (path_join q n) x"
      using "1.IH"[OF 3(1) refl refl _ w _ 3(2)] by simp
    then show ?thesis unfolding j by (rule under_child)
  qed
next
  case (2 q)
  then show ?case by simp
qed

lemma distinct_concat_keyed:
  "distinct (map nm subs) \<Longrightarrow> (\<And>x. x \<in> set subs \<Longrightarrow> distinct (f x)) \<Longrightarrow>
   (\<And>x y. x \<in> set subs \<Longrightarrow> y \<in> set (f x) \<Longrightarrow> key y = nm x) \<Longrightarrow>
   distinct (concat (map f subs))"
proof (induction subs)
  case Nil
  then show ?case by simp
next
  case (Cons a subs)
  have d1: "distinct (f a)" using Cons.prems(2)[of a] by simp
  have d2: "distinct (concat (map f subs))"
  proof (rule Cons.IH)
    show "distinct (map nm subs)" using Cons.prems(1) by simp
    show "distinct (f x)" if "x \<in> set subs" for x
      using Cons.prems(2)[of x] that by simp
    show "key y = nm x" if "x \<in> set subs" "y \<in> set (f x)" for x y
      using Cons.prems(3)[of x y] that by simp
  qed
  have dj: "set (f a) \<inter> set (concat (map f subs)) = {}"
  proof (rule ccontr)
    assume "set (f a) \<inter> set (concat (map f subs)) \<noteq> {}"
    then obtain y x where y: "y \<in> set (f a)" and m: "x \<in> set subs" and y': "y \<in> set (f x)"
      by auto
    have "key y = nm a" using Cons.prems(3)[of a y] y by simp
    moreover have "key y = nm x" using Cons.prems(3)[of x y] m y' by simp
    ultimately have "nm a = nm x" by simp
    then have "nm a \<in> nm ` set subs" using m by (rule image_eqI)
    then show False using Cons.prems(1) by simp
  qed
  show ?case using d1 d2 dj by simp
qed

lemma distinct_walk_paths: "wf_tree t \<Longrightarrow> distinct (walk_paths topdir t)"
proof (induction topdir t rule: walk_paths.induct)
  case (1 topdir nondirs subs)
  let ?pre = "topdir @ sep topdir"
  let ?fp = "map (\<lambda>(f, kind). topdir @ ''/'' @ f) nondirs"
  let ?g = "\<lambda>(name, islink, t). if islink then [] else walk_paths (path_join topdir name) t"
  let ?sp = "concat (map ?g subs)"
  have names: "distinct (map fst nondirs @ map fst subs)" using "1.prems" by simp
  have sub: "under (?pre @ n) x"
    if "(n, False, t) \<in> set subs" "x \<in> set (walk_paths (path_join topdir n) t)" for n t x
  proof -
    have v: "valid_name n" using wf_tree_sub[OF "1.prems" that(1)] .
    have w: "wf_tree t" using wf_tree_real_sub[OF "1.prems" that(1)] .
    have "under (path_join topdir n) x"
      using under_walk_paths[of t "path_join topdir n" x] w that(2) sep_join[OF v, of topdir]
      by (simp add: path_join_valid[OF v])
    then show ?thesis by (simp add: path_join_valid[OF v])
  qed
  have key: "stem ?pre x = n"
    if "(n, False, t) \<in> set subs" "x \<in> set (walk_paths (path_join topdir n) t)" for n t x
    using stem_under[OF _ sub[OF that]] wf_tree_sub[OF "1.prems" that(1)]
    by (simp add: valid_name_def)
  have dsub: "distinct ?sp"
  proof (rule distinct_concat_keyed[where key = "stem ?pre" and nm = fst])
    show "distinct (map fst subs)" using names by simp
    show "distinct (?g x)" if "x \<in> set subs" for x
    proof -
      obtain n l t where x: "x = (n, l, t)" by (cases x)
      show ?thesis
      proof (cases l)
        case True
        then show ?thesis by (simp add: x)
      next
        case False
        have m: "(n, False, t) \<in> set subs" using that x False by simp
        show ?thesis
          using "1.IH"[OF that x[symmetric] refl False] wf_tree_real_sub[OF "1.prems" m] x False
          by simp
      qed
    qed
    show "stem ?pre y = fst x" if "x \<in> set subs" "y \<in> set (?g x)" for x y
    proof -
      obtain n l t where x: "x = (n, l, t)" by (cases x)
      have l: "\<not> l" using that(2) x by (cases l) auto
      show ?thesis using key[of n t y] that x l by simp
    qed
  qed
  have dfile: "distinct ?fp"
  proof -
    have e: "?fp = map (\<lambda>f. topdir @ ''/'' @ f) (map fst nondirs)"
      by (simp add: case_prod_unfold comp_def)
    have "distinct (map fst nondirs)" using names by simp
    then have "distinct (map (\<lambda>f. topdir @ ''/'' @ f) (map fst nondirs))"
      by (simp only: distinct_map) (simp add: inj_on_def)
    then show ?thesis unfolding e .
  qed
  have top_file: "topdir \<notin> set ?fp" by auto
  have top_sub: "topdir \<notin> set ?sp"
  proof
    assume "topdir \<in> set ?sp"
    then obtain n t where m: "(n, False, t) \<in> set subs"
      and x: "topdir \<in> set (walk_paths (path_join topdir n) t)"
      by (rule sub_paths_cases)
    have "length (?pre @ n) \<le> length topdir" using under_length[OF sub[OF m x]] .
    moreover have "n \<noteq> []" using wf_tree_sub[OF "1.prems" m] by (simp add: valid_name_def)
    ultimately show False by simp
  qed
  have file_sub: "set ?fp \<inter> set ?sp = {}"
  proof (rule ccontr)
    assume "set ?fp \<inter> set ?sp \<noteq> {}"
    then obtain y where y1: "y \<in> set ?fp" and y2: "y \<in> set ?sp" by blast
    from y1 obtain p where p: "p \<in> set nondirs"
      and yp: "y = (case p of (f, kind) \<Rightarrow> topdir @ ''/'' @ f)"
      by auto
    obtain f k where pk: "p = (f, k)" by (cases p)
    have f: "(f, k) \<in> set nondirs" and yf: "y = topdir @ ''/'' @ f"
      using p yp pk by simp_all
    from y2 obtain n t where m: "(n, False, t) \<in> set subs"
      and x: "y \<in> set (walk_paths (path_join topdir n) t)"
      by (rule sub_paths_cases)
    have vf: "CHR ''/'' \<notin> set f" using wf_tree_file[OF "1.prems" f] by (simp add: valid_name_def)
    have vn: "n \<noteq> []" using wf_tree_sub[OF "1.prems" m] by (simp add: valid_name_def)
    have "stem ?pre (topdir @ ''/'' @ f) = f \<or> stem ?pre (topdir @ ''/'' @ f) = []"
      using vf by (auto simp: stem_def sep_def takeWhile_eq_all_conv)
    then have "n = f \<or> n = []" using key[OF m x] yf by auto
    moreover have "n \<noteq> f" using names f m by force
    ultimately show False using vn by simp
  qed
  show ?case using dsub dfile top_file top_sub file_sub by auto
next
  case (2 topdir)
  then show ?case by simp
qed

lemma distinct_walk_tasks:
  "wf_tree t \<Longrightarrow> distinct (map task_path (walk_tasks c (walk topdir t)))"
  by (simp add: paths_walk_tasks distinct_walk_paths)

lemma dispatch_subset: "set (dispatch n s i k ts) \<subseteq> set ts"
  by (induction ts arbitrary: k) auto

lemma dispatch_distinct: "distinct (map f ts) \<Longrightarrow> distinct (map f (dispatch n s i k ts))"
proof (induction ts arbitrary: k)
  case Nil
  then show ?case by simp
next
  case (Cons t ts)
  have "f t \<notin> f ` set (dispatch n s i (Suc k) ts)"
    using Cons.prems dispatch_subset[of n s i "Suc k" ts] by auto
  then show ?case using Cons by simp
qed

lemma sum_list_bump:
  "c < n \<Longrightarrow> sum_list (map (\<lambda>i. if c = i then Suc (f i) else f i) [0..<n])
             = Suc (sum_list (map f [0..<n]))"
proof (induction n)
  case 0
  then show ?case by simp
next
  case (Suc n)
  show ?case
  proof (cases "c = n")
    case True
    have h: "map (\<lambda>i. if n = i then Suc (f i) else f i) [0..<n] = map f [0..<n]"
      by (rule map_cong) auto
    show ?thesis unfolding True by (simp add: h)
  next
    case False
    then have "c < n" using Suc.prems by simp
    then show ?thesis using Suc.IH False by simp
  qed
qed

lemma dispatch_sum:
  "0 < n \<Longrightarrow> sum_list (map (\<lambda>i. length (dispatch n s i k ts)) [0..<n]) = length ts"
proof (induction ts arbitrary: k)
  case Nil
  then show ?case by simp
next
  case (Cons t ts)
  have "(\<lambda>i. length (dispatch n s i k (t # ts)))
        = (\<lambda>i. if s k mod n = i then Suc (length (dispatch n s i (Suc k) ts))
                else length (dispatch n s i (Suc k) ts))"
    by auto
  moreover have "s k mod n < n" using Cons.prems by simp
  ultimately show ?case using Cons.IH[OF Cons.prems, of "Suc k"]
    by (simp add: sum_list_bump)
qed

lemma consumed_paths_tasks: "Stop \<notin> set ts \<Longrightarrow> consumed_paths (ts @ [Stop]) = map task_path ts"
proof (induction ts)
  case Nil
  then show ?case by simp
next
  case (Cons t ts)
  then show ?case by (cases t) auto
qed

lemma worker_main_returns: "\<exists>cs ds. worker_main (ts @ [Stop]) g q B = Some (cs, ds)"
proof -
  obtain r where "worker_loop g q B [] (ts @ [Stop]) = Some r"
    using loop_returns[of "ts @ [Stop]" g q B "[]"] by auto
  then show ?thesis by (cases r) (simp add: worker_main_def)
qed

lemma joined_Some: "(\<And>r. r \<in> set rs \<Longrightarrow> r \<noteq> None) \<Longrightarrow> joined rs = Some (map the rs)"
proof (induction rs)
  case Nil
  then show ?case by simp
next
  case (Cons r rs)
  have "r \<noteq> None" using Cons.prems[of r] by simp
  then obtain x where "r = Some x" by auto
  moreover have "joined rs = Some (map the rs)"
    by (rule Cons.IH) (simp add: Cons.prems)
  ultimately show ?case by simp
qed

lemma folder_joined:
  "joined (map (\<lambda>i. worker_main (D i @ [Stop]) g q B) [0..<n])
   = Some (map (\<lambda>i. the (worker_main (D i @ [Stop]) g q B)) [0..<n])"
proof -
  have "joined (map (\<lambda>i. worker_main (D i @ [Stop]) g q B) [0..<n])
        = Some (map the (map (\<lambda>i. worker_main (D i @ [Stop]) g q B) [0..<n]))"
  proof (rule joined_Some)
    fix r assume "r \<in> set (map (\<lambda>i. worker_main (D i @ [Stop]) g q B) [0..<n])"
    then obtain i where "r = worker_main (D i @ [Stop]) g q B" by auto
    then show "r \<noteq> None" using worker_main_returns[of "D i" g q B] by auto
  qed
  then show ?thesis by (simp add: comp_def)
qed

lemma folder_workers:
  "workers (fastmod_folder e c sched)
   = map (\<lambda>i. the (worker_main
                     (dispatch (nat (ncpus c)) sched i 0 (walk_tasks c (os_walk e (path c))) @ [Stop])
                     (if set_group c then grp c else None) (quiet c) (blocksize c)))
         [0..<nat (ncpus c)]"
  by (simp add: fastmod_folder_def Let_def folder_joined)

lemma filter_put_task_tasks: "Stop \<notin> set ts \<Longrightarrow> filter is_put_task (map Put ts) = map Put ts"
proof (induction ts)
  case Nil
  then show ?case by simp
next
  case (Cons t ts)
  then show ?case by (cases t) auto
qed

lemma folder_puts:
  "filter is_put_task (events (fastmod_folder e c sched))
   = map Put (walk_tasks c (os_walk e (path c)))"
  by (simp add: fastmod_folder_def Let_def folder_joined filter_put_task_tasks no_Stop_walk_tasks)

lemma folder_starts:
  "filter is_start (events (fastmod_folder e c sched))
   = replicate (nat (ncpus c)) (Start (if set_group c then grp c else None) (quiet c) (blocksize c))"
  by (simp add: fastmod_folder_def Let_def folder_joined filter_map comp_def)

lemma chmod_pairs_Nil: "chmod_pairs [] = []"
  by (simp add: chmod_pairs_def)

lemma chmod_pairs_append: "chmod_pairs (cs @ ds) = chmod_pairs cs @ chmod_pairs ds"
  by (simp add: chmod_pairs_def)

lemma chmod_pairs_flush: "chmod_pairs (flush g q p s) = map (Pair p) s"
  by (cases g) (simp_all add: chmod_pairs_def flush_def)

lemma length_call_pairs: "length (call_pairs c) = (if is_chmod c then length (call_paths c) else 0)"
  by (cases c) simp_all

lemma length_chmod_pairs: "length (chmod_pairs cs) = sum_list (batch_sizes cs)"
  by (induction cs) (simp_all add: chmod_pairs_def batch_sizes_def length_call_pairs)

lemma buffer_pairs_add:
  "set (buffer_pairs (setdefault_add p x b)) = insert (p, x) (set (buffer_pairs b))"
  by (induction p x b rule: setdefault_add.induct) (auto simp: set_add_def)

lemma buffer_pairs_clear:
  "set (buffer_pairs (buffer_clear p b)) \<union> Pair p ` set (buffer_get b p) = set (buffer_pairs b)"
  by (induction p b rule: buffer_clear.induct) auto

lemma step_pairs:
  assumes "worker_step g q B b rt name p = (cs, b')"
  shows "set (chmod_pairs cs) \<union> set (buffer_pairs b')
         = insert (p, resolve rt name) (set (buffer_pairs b))"
proof (cases "B \<le> int (length (buffer_get (setdefault_add p (resolve rt name) b) p))")
  case True
  with assms have "cs = flush g q p (buffer_get (setdefault_add p (resolve rt name) b) p)"
    and "b' = buffer_clear p (setdefault_add p (resolve rt name) b)"
    by (simp_all add: worker_step_def Let_def)
  then show ?thesis
    using buffer_pairs_clear[of p "setdefault_add p (resolve rt name) b"]
    by (simp add: chmod_pairs_flush buffer_pairs_add Un_commute)
next
  case False
  with assms have "cs = []" and "b' = setdefault_add p (resolve rt name) b"
    by (simp_all add: worker_step_def Let_def)
  then show ?thesis by (simp add: chmod_pairs_Nil buffer_pairs_add)
qed

lemma loop_pairs:
  "worker_loop g q B b items = Some (cs, b') \<Longrightarrow>
   set (chmod_pairs cs) \<union> set (buffer_pairs b') = set (buffer_pairs b) \<union> set (consumed_pairs items)"
proof (induction g q B b items arbitrary: cs b' rule: worker_loop.induct)
  case (1 g q B b)
  then show ?case by simp
next
  case (2 g q B b items)
  then show ?case by (simp add: chmod_pairs_Nil)
next
  case (3 g q B b rt name p items)
  obtain cs1 b1 where st: "worker_step g q B b rt name p = (cs1, b1)"
    by (cases "worker_step g q B b rt name p")
  with "3.prems"(1) obtain cs2 where lp: "worker_loop g q B b1 items = Some (cs2, b')"
    and cs: "cs = cs1 @ cs2"
    by (auto split: option.splits)
  have a: "set (chmod_pairs cs1) \<union> set (buffer_pairs b1)
           = insert (p, resolve rt name) (set (buffer_pairs b))"
    using st by (rule step_pairs)
  have b: "set (chmod_pairs cs2) \<union> set (buffer_pairs b')
           = set (buffer_pairs b1) \<union> set (consumed_pairs items)"
    using "3.IH"[OF st[symmetric] lp] .
  have "set (chmod_pairs cs) \<union> set (buffer_pairs b')
        = set (chmod_pairs cs1) \<union> (set (chmod_pairs cs2) \<union> set (buffer_pairs b'))"
    by (simp add: cs chmod_pairs_append Un_assoc)
  also have "\<dots> = (set (chmod_pairs cs1) \<union> set (buffer_pairs b1)) \<union> set (consumed_pairs items)"
    by (simp only: b Un_assoc)
  also have "\<dots> = set (buffer_pairs b) \<union> set (consumed_pairs (Task rt name p # items))"
    by (simp only: a) auto
  finally show ?case .
qed

lemma drain_pairs: "chmod_pairs (worker_drain g q b) = buffer_pairs b"
  by (induction g q b rule: worker_drain.induct)
     (simp_all add: chmod_pairs_Nil chmod_pairs_append chmod_pairs_flush)

lemma main_pairs:
  assumes "worker_main items g q B = Some (cs, ds)"
  shows "set (chmod_pairs (cs @ ds)) = set (consumed_pairs items)"
proof -
  from assms obtain b where lp: "worker_loop g q B [] items = Some (cs, b)"
    and ds: "ds = worker_drain g q b"
    by (auto simp: worker_main_def split: option.splits)
  show ?thesis using loop_pairs[OF lp] by (simp add: ds chmod_pairs_append drain_pairs)
qed

lemma consumed_paths_pairs: "consumed_paths items = map snd (consumed_pairs items)"
  by (induction items rule: consumed_pairs.induct) simp_all

lemma worker_flushed:
  assumes "Stop \<notin> set ts" and "distinct (map task_path ts)"
  shows "(case the (worker_main (ts @ [Stop]) g q B) of (cs, ds) \<Rightarrow> sum_list (batch_sizes (cs @ ds)))
         = length ts"
proof -
  obtain cs ds where w: "worker_main (ts @ [Stop]) g q B = Some (cs, ds)"
    using worker_main_returns by blast
  have "sum_list (batch_sizes (cs @ ds)) = length (consumed_paths (ts @ [Stop]))"
    using main_account[OF w] assms by (simp add: consumed_paths_tasks)
  then show ?thesis using w assms(1) by (simp add: consumed_paths_tasks)
qed

lemma worker_flushed_set:
  assumes "Stop \<notin> set ts"
  shows "(case the (worker_main (ts @ [Stop]) g q B) of (cs, ds) \<Rightarrow> set (map snd (chmod_pairs (cs @ ds))))
         = set (map task_path ts)"
proof -
  obtain cs ds where w: "worker_main (ts @ [Stop]) g q B = Some (cs, ds)"
    using worker_main_returns by blast
  have "set (map snd (chmod_pairs (cs @ ds))) = set (map snd (consumed_pairs (ts @ [Stop])))"
    using main_pairs[OF w] by simp
  then show ?thesis
    using w assms by (simp add: consumed_paths_pairs[symmetric] consumed_paths_tasks)
qed

lemma dispatch_union:
  "0 < n \<Longrightarrow> (\<Union>i\<in>set [0..<n]. set (dispatch n s i k ts)) = set ts"
proof (induction ts arbitrary: k)
  case Nil
  then show ?case by simp
next
  case (Cons t ts)
  have lt: "s k mod n < n" using Cons.prems by simp
  have ih: "(\<Union>i\<in>set [0..<n]. set (dispatch n s i (Suc k) ts)) = set ts"
    using Cons.IH[OF Cons.prems] .
  have "(\<Union>i\<in>set [0..<n]. set (dispatch n s i k (t # ts)))
        = insert t (\<Union>i\<in>set [0..<n]. set (dispatch n s i (Suc k) ts))"
    using lt by (auto split: if_splits)
  then show ?case using ih by simp
qed

lemma folder_flushed:
  assumes "distinct (map task_path (walk_tasks c (os_walk e (path c))))" and "1 \<le> ncpus c"
  shows "flushed_total (workers (fastmod_folder e c sched))
         = length (walk_tasks c (os_walk e (path c)))"
proof -
  let ?ts = "walk_tasks c (os_walk e (path c))"
  let ?n = "nat (ncpus c)"
  let ?g = "if set_group c then grp c else None"
  have one: "(case the (worker_main (dispatch ?n sched i 0 ?ts @ [Stop]) ?g (quiet c) (blocksize c))
              of (cs, ds) \<Rightarrow> sum_list (batch_sizes (cs @ ds)))
             = length (dispatch ?n sched i 0 ?ts)" for i
  proof (rule worker_flushed)
    show "Stop \<notin> set (dispatch ?n sched i 0 ?ts)"
      using dispatch_subset[of ?n sched i 0 ?ts] no_Stop_walk_tasks[of c "os_walk e (path c)"]
      by auto
    show "distinct (map task_path (dispatch ?n sched i 0 ?ts))"
      using assms(1) by (rule dispatch_distinct)
  qed
  have "flushed_total (workers (fastmod_folder e c sched))
        = sum_list (map (\<lambda>i. length (dispatch ?n sched i 0 ?ts)) [0..<?n])"
    unfolding flushed_total_def folder_workers by (simp add: comp_def one)
  also have "\<dots> = length ?ts"
    using assms(2) by (simp add: dispatch_sum)
  finally show ?thesis .
qed

lemma length_flushed_paths: "length (flushed_paths ws) = flushed_total ws"
proof (induction ws)
  case Nil
  then show ?case by (simp add: flushed_paths_def flushed_total_def)
next
  case (Cons w ws)
  obtain cs ds where w: "w = (cs, ds)" by (cases w)
  show ?case using Cons
    by (simp add: flushed_paths_def flushed_total_def w length_chmod_pairs)
qed

lemma folder_flushed_set:
  assumes "1 \<le> ncpus c"
  shows "set (flushed_paths (workers (fastmod_folder e c sched)))
         = set (map task_path (walk_tasks c (os_walk e (path c))))"
proof -
  let ?ts = "walk_tasks c (os_walk e (path c))"
  let ?n = "nat (ncpus c)"
  let ?g = "if set_group c then grp c else None"
  have one: "(case the (worker_main (dispatch ?n sched i 0 ?ts @ [Stop]) ?g (quiet c) (blocksize c))
              of (cs, ds) \<Rightarrow> set (map snd (chmod_pairs (cs @ ds))))
             = set (map task_path (dispatch ?n sched i 0 ?ts))" for i
  proof (rule worker_flushed_set)
    show "Stop \<notin> set (dispatch ?n sched i 0 ?ts)"
      using dispatch_subset[of ?n sched i 0 ?ts] no_Stop_walk_tasks[of c "os_walk e (path c)"]
      by auto
  qed
  have "set (flushed_paths (workers (fastmod_folder e c sched)))
        = (\<Union>i\<in>set [0..<?n]. case the (worker_main (dispatch ?n sched i 0 ?ts @ [Stop])
                                         ?g (quiet c) (blocksize c))
                                 of (cs, ds) \<Rightarrow> set (map snd (chmod_pairs (cs @ ds))))"
    unfolding flushed_paths_def folder_workers
    by (simp add: comp_def case_prod_unfold)
  also have "\<dots> = (\<Union>i\<in>set [0..<?n]. set (map task_path (dispatch ?n sched i 0 ?ts)))"
    by (simp only: one)
  also have "\<dots> = task_path ` (\<Union>i\<in>set [0..<?n]. set (dispatch ?n sched i 0 ?ts))"
    by auto
  also have "\<dots> = task_path ` set ?ts"
    using assms dispatch_union[of ?n sched 0 ?ts] by simp
  finally show ?thesis by simp
qed

lemma folder_flushed_distinct:
  assumes "distinct (map task_path (walk_tasks c (os_walk e (path c))))" and "1 \<le> ncpus c"
  shows "distinct (flushed_paths (workers (fastmod_folder e c sched)))"
proof -
  let ?ts = "map task_path (walk_tasks c (os_walk e (path c)))"
  let ?fl = "flushed_paths (workers (fastmod_folder e c sched))"
  have "card (set ?fl) = card (set ?ts)"
    using folder_flushed_set[OF assms(2)] by simp
  also have "\<dots> = length ?ts" using assms(1) by (rule distinct_card)
  also have "\<dots> = length ?fl"
    using folder_flushed[OF assms] by (simp add: length_flushed_paths)
  finally show ?thesis by (rule card_distinct)
qed

text \<open>
  Claim C1, amended. Take a directory tree (entry names as a file system has them) in
  which every directory can be listed and every entry that is not taken for a directory
  is a regular file, with F regular files and D directories under an existing root. The
  producer enqueues exactly F + D tasks, whatever the worker count. When the worker count
  is at least 1 then, whichever worker dequeues which task, the sizes of all batches
  flushed by all workers (in the loop and in the drain) add up to F + D, and no buffered
  path is dropped: the paths of the flushed batches are the resolved paths of the
  enqueued tasks, each exactly once.
\<close>

theorem folder_flushes_every_task:
  assumes "wf_tree t" and "all_listable t" and "all_regular t"
    and "os_walk e (path c) = walk (path c) t"
  shows "length (filter is_put_task (events (fastmod_folder e c sched)))
           = count_files t + count_dirs t
         \<and> (1 \<le> ncpus c \<longrightarrow>
              flushed_total (workers (fastmod_folder e c sched)) = count_files t + count_dirs t
              \<and> distinct (flushed_paths (workers (fastmod_folder e c sched)))
              \<and> set (flushed_paths (workers (fastmod_folder e c sched)))
                  = set (map task_path (walk_tasks c (walk (path c) t))))"
proof -
  have d: "distinct (map task_path (walk_tasks c (os_walk e (path c))))"
    using assms(1,4) by (simp add: distinct_walk_tasks)
  have n: "length (walk_tasks c (os_walk e (path c))) = count_files t + count_dirs t"
    using assms(2,3,4) by (simp add: length_walk_tasks)
  have p: "length (filter is_put_task (events (fastmod_folder e c sched)))
           = count_files t + count_dirs t"
    using n by (simp add: folder_puts)
  have f: "flushed_total (workers (fastmod_folder e c sched)) = count_files t + count_dirs t
           \<and> distinct (flushed_paths (workers (fastmod_folder e c sched)))
           \<and> set (flushed_paths (workers (fastmod_folder e c sched)))
               = set (map task_path (walk_tasks c (walk (path c) t)))"
    if w: "1 \<le> ncpus c"
    using folder_flushed[OF d w, of sched] folder_flushed_distinct[OF d w, of sched]
      folder_flushed_set[OF w, of e sched] n assms(4)
    by simp
  show ?thesis using p f by blast
qed

theorem folder_flushes_every_task_witness:
  "wf_tree ex_tree \<and> all_listable ex_tree \<and> all_regular ex_tree
   \<and> os_walk ex_env (path ex_cfg) = walk (path ex_cfg) ex_tree
   \<and> 1 \<le> ncpus ex_cfg
   \<and> count_files ex_tree + count_dirs ex_tree = 5
   \<and> length (filter is_put_task (events (fastmod_folder ex_env ex_cfg id))) = 5
   \<and> flushed_total (workers (fastmod_folder ex_env ex_cfg id)) = 5
   \<and> distinct (flushed_paths (workers (fastmod_folder ex_env ex_cfg id)))
   \<and> set (flushed_paths (workers (fastmod_folder ex_env ex_cfg id)))
      = set (map task_path (walk_tasks ex_cfg (walk (path ex_cfg) ex_tree)))"
proof -
  have h1: "wf_tree ex_tree" by (simp add: ex_tree_def valid_name_def)
  have h2: "all_listable ex_tree" by (simp add: ex_tree_def)
  have h3: "all_regular ex_tree" by (simp add: ex_tree_def)
  have h4: "os_walk ex_env (path ex_cfg) = walk (path ex_cfg) ex_tree" by (simp add: ex_env_def)
  have h5: "1 \<le> ncpus ex_cfg" by (simp add: ex_cfg_def)
  have n: "count_files ex_tree + count_dirs ex_tree = 5" by (simp add: ex_tree_def)
  show ?thesis
    using folder_flushes_every_task[OF h1 h2 h3 h4, of id] h1 h2 h3 h4 h5 n by simp
qed

text \<open>
  Claim C1 as stated fails in three ways, each at an input of its own. With a worker
  count of 0 (\<open>-C0\<close>, or the default on a machine with one processor) the five tasks of
  the example tree are put on the queue, no worker exists and nothing is flushed. A
  directory that cannot be listed gets no task: \<open>d\<close> holding such a directory has two
  directories and one task. An entry that is not a directory is a task whatever it is:
  \<open>d\<close> holding one FIFO has one directory, no regular file and two tasks.
\<close>

theorem folder_without_worker_flushes_nothing:
  "wf_tree ex_tree
   \<and> os_walk ex_env (path (ex_cfg\<lparr>ncpus := 0\<rparr>)) = walk (path (ex_cfg\<lparr>ncpus := 0\<rparr>)) ex_tree
   \<and> count_files ex_tree + count_dirs ex_tree = 5
   \<and> length (filter is_put_task (events (fastmod_folder ex_env (ex_cfg\<lparr>ncpus := 0\<rparr>) id))) = 5
   \<and> flushed_total (workers (fastmod_folder ex_env (ex_cfg\<lparr>ncpus := 0\<rparr>) id)) = 0
   \<and> wf_tree ex_tree_unlistable_sub
   \<and> os_walk (ex_env_on ex_tree_unlistable_sub) (path ex_cfg)
      = walk (path ex_cfg) ex_tree_unlistable_sub
   \<and> count_files ex_tree_unlistable_sub + count_dirs ex_tree_unlistable_sub = 2
   \<and> filter is_put_task (events (fastmod_folder (ex_env_on ex_tree_unlistable_sub) ex_cfg id))
      = [Put (Task ''d'' ''.'' ''u+rwx'')]
   \<and> wf_tree ex_tree_fifo
   \<and> os_walk (ex_env_on ex_tree_fifo) (path ex_cfg) = walk (path ex_cfg) ex_tree_fifo
   \<and> count_files ex_tree_fifo + count_dirs ex_tree_fifo = 1
   \<and> filter is_put_task (events (fastmod_folder (ex_env_on ex_tree_fifo) ex_cfg id))
      = [Put (Task ''d'' ''.'' ''u+rwx''), Put (Task ''d'' ''p'' ''u+rw'')]"
proof -
  let ?c = "ex_cfg\<lparr>ncpus := 0\<rparr>"
  have h1: "wf_tree ex_tree" by (simp add: ex_tree_def valid_name_def)
  have h2: "os_walk ex_env (path ?c) = walk (path ?c) ex_tree" by (simp add: ex_env_def)
  have n: "count_files ex_tree + count_dirs ex_tree = 5" by (simp add: ex_tree_def)
  have t: "length (walk_tasks ?c (walk (path ?c) ex_tree)) = 5"
    using length_walk_tasks[of ex_tree ?c "path ?c"] by (simp add: ex_tree_def)
  have p: "length (filter is_put_task (events (fastmod_folder ex_env ?c id))) = 5"
    by (simp only: folder_puts h2 length_map t)
  have w: "flushed_total (workers (fastmod_folder ex_env ?c id)) = 0"
    by (simp add: folder_workers flushed_total_def ex_cfg_def)
  have u1: "wf_tree ex_tree_unlistable_sub"
    by (simp add: ex_tree_unlistable_sub_def valid_name_def)
  have u2: "os_walk (ex_env_on ex_tree_unlistable_sub) (path ex_cfg)
            = walk (path ex_cfg) ex_tree_unlistable_sub"
    by (simp add: ex_env_on_def)
  have u3: "count_files ex_tree_unlistable_sub + count_dirs ex_tree_unlistable_sub = 2"
    by (simp add: ex_tree_unlistable_sub_def)
  have u4: "filter is_put_task (events (fastmod_folder (ex_env_on ex_tree_unlistable_sub) ex_cfg id))
            = [Put (Task ''d'' ''.'' ''u+rwx'')]"
    by (simp add: folder_puts u2) (simp add: ex_tree_unlistable_sub_def ex_cfg_def walk_tasks_def)
  have f1: "wf_tree ex_tree_fifo" by (simp add: ex_tree_fifo_def valid_name_def)
  have f2: "os_walk (ex_env_on ex_tree_fifo) (path ex_cfg) = walk (path ex_cfg) ex_tree_fifo"
    by (simp add: ex_env_on_def)
  have f3: "count_files ex_tree_fifo + count_dirs ex_tree_fifo = 1"
    by (simp add: ex_tree_fifo_def)
  have f4: "filter is_put_task (events (fastmod_folder (ex_env_on ex_tree_fifo) ex_cfg id))
            = [Put (Task ''d'' ''.'' ''u+rwx''), Put (Task ''d'' ''p'' ''u+rw'')]"
    by (simp add: folder_puts f2) (simp add: ex_tree_fifo_def ex_cfg_def walk_tasks_def)
  show ?thesis using h1 h2 n p w u1 u2 u3 u4 f1 f2 f3 f4 by blast
qed

lemma owner_first_flush: "owner_first q g (flush (Some g) q perms ps @ cs) = owner_first q g cs"
  by (simp add: flush_def)

lemma owner_first_append:
  "owner_first q g cs \<Longrightarrow> owner_first q g ds \<Longrightarrow> owner_first q g (cs @ ds)"
  by (induction q g cs rule: owner_first.induct) auto

lemma owner_first_step:
  "worker_step (Some g) q B b rt name perms = (cs, b') \<Longrightarrow> owner_first q g cs"
  using owner_first_flush[of q g _ _ "[]"]
  by (auto simp: worker_step_def Let_def split: if_splits)

lemma owner_first_loop:
  "worker_loop (Some g) q B b items = Some (cs, b') \<Longrightarrow> owner_first q g cs"
proof (induction "Some g" q B b items arbitrary: cs b' rule: worker_loop.induct)
  case (1 q B b)
  then show ?case by simp
next
  case (2 q B b items)
  then show ?case by simp
next
  case (3 q B b rt name p items)
  obtain cs1 b1 where st: "worker_step (Some g) q B b rt name p = (cs1, b1)"
    by (cases "worker_step (Some g) q B b rt name p")
  with "3.prems" obtain cs2 where lp: "worker_loop (Some g) q B b1 items = Some (cs2, b')"
    and cs: "cs = cs1 @ cs2"
    by (auto split: option.splits)
  show ?case unfolding cs
    using owner_first_step[OF st] "3.hyps"[OF st[symmetric] lp] by (rule owner_first_append)
qed

lemma owner_first_drain: "owner_first q g (worker_drain (Some g) q b)"
  by (induction "Some g" q b rule: worker_drain.induct) (simp_all add: owner_first_flush)

lemma owner_first_nth:
  "owner_first q g cs \<Longrightarrow> i < length cs \<Longrightarrow> is_chmod (cs ! i) \<Longrightarrow>
   0 < i \<and> cs ! (i - 1) = Chgrp q g (call_paths (cs ! i))"
proof (induction q g cs arbitrary: i rule: owner_first.induct)
  case (2 q g q1 g1 ps1 q2 perms ps2 cs)
  have eqs: "q1 = q" "q2 = q" "g1 = g" "ps2 = ps1" and rest: "owner_first q g cs"
    using "2.prems"(1) by simp_all
  show ?case
  proof (cases i)
    case 0
    then show ?thesis using "2.prems"(3) by simp
  next
    case (Suc k)
    show ?thesis
    proof (cases k)
      case 0
      then show ?thesis using Suc eqs by simp
    next
      case (Suc j)
      have i: "i = Suc (Suc j)" using \<open>i = Suc k\<close> Suc by simp
      have "j < length cs" using "2.prems"(2) i by simp
      moreover have "is_chmod (cs ! j)" using "2.prems"(3) i by simp
      ultimately have ih: "0 < j \<and> cs ! (j - 1) = Chgrp q g (call_paths (cs ! j))"
        using "2.IH"[OF rest] by blast
      then obtain m where m: "j = Suc m" by (cases j) auto
      show ?thesis using ih unfolding i m by simp
    qed
  qed
qed simp_all

text \<open>
  Claim C2. When a group is configured, the calls a worker makes, in the loop and in the
  drain, are batches of a \<open>chgrp\<close> followed at once by the \<open>chmod\<close> over the same paths:
  every \<open>chmod\<close> of a flush has the \<open>chgrp\<close> of that batch right before it.
\<close>

theorem owner_change_before_permission_change:
  assumes "worker_main items (Some g) q B = Some (cs, ds)"
  shows "owner_first q g cs \<and> owner_first q g ds
         \<and> (\<forall>i < length (cs @ ds). is_chmod ((cs @ ds) ! i) \<longrightarrow>
              0 < i \<and> (cs @ ds) ! (i - 1) = Chgrp q g (call_paths ((cs @ ds) ! i)))"
proof -
  from assms obtain b where lp: "worker_loop (Some g) q B [] items = Some (cs, b)"
    and ds: "ds = worker_drain (Some g) q b"
    by (auto simp: worker_main_def split: option.splits)
  have a: "owner_first q g cs" using lp by (rule owner_first_loop)
  have b: "owner_first q g ds" unfolding ds by (rule owner_first_drain)
  have "owner_first q g (cs @ ds)" using a b by (rule owner_first_append)
  then show ?thesis using a b owner_first_nth by blast
qed

theorem owner_change_before_permission_change_witness:
  "worker_main [Task ''d'' ''.'' ''p'', Task ''d'' ''a'' ''p'', Task ''d'' ''b'' ''p'', Stop]
     (Some ''staff'') False 2
   = Some ([Chgrp False ''staff'' [''d'', ''d/a''], Chmod False ''p'' [''d'', ''d/a'']],
           [Chgrp False ''staff'' [''d/b''], Chmod False ''p'' [''d/b'']])
   \<and> owner_first False ''staff'' [Chgrp False ''staff'' [''d'', ''d/a''], Chmod False ''p'' [''d'', ''d/a'']]
   \<and> owner_first False ''staff'' [Chgrp False ''staff'' [''d/b''], Chmod False ''p'' [''d/b'']]"
proof -
  have h: "worker_main [Task ''d'' ''.'' ''p'', Task ''d'' ''a'' ''p'', Task ''d'' ''b'' ''p'', Stop]
     (Some ''staff'') False 2
   = Some ([Chgrp False ''staff'' [''d'', ''d/a''], Chmod False ''p'' [''d'', ''d/a'']],
           [Chgrp False ''staff'' [''d/b''], Chmod False ''p'' [''d/b'']])"
    by (simp add: worker_main_def worker_step_def resolve_def set_add_def flush_def Let_def)
  show ?thesis using owner_change_before_permission_change[OF h] h by blast
qed

lemma step_sizes:
  assumes "groups_below B b" and "1 \<le> B" and "worker_step g q B b rt name p = (cs, b')"
  shows "list_all (\<lambda>n. int n = B) (batch_sizes cs) \<and> groups_below B b'"
proof (cases "B \<le> int (length (buffer_get (setdefault_add p (resolve rt name) b) p))")
  case True
  with assms(3) have cs: "cs = flush g q p (buffer_get (setdefault_add p (resolve rt name) b) p)"
    and b': "b' = buffer_clear p (setdefault_add p (resolve rt name) b)"
    by (simp_all add: worker_step_def Let_def)
  have "int (length (buffer_get (setdefault_add p (resolve rt name) b) p)) = B"
    using True below_get_add[OF assms(1,2), of p "resolve rt name"] by simp
  then show ?thesis
    using below_clear_add[OF assms(1,2)] by (simp add: cs b' batch_sizes_flush)
next
  case False
  with assms(3) have "cs = []" and "b' = setdefault_add p (resolve rt name) b"
    by (simp_all add: worker_step_def Let_def)
  then show ?thesis using below_add_keep[OF assms(1) False] by (simp add: batch_sizes_Nil)
qed

lemma loop_sizes:
  "worker_loop g q B b items = Some (cs, b') \<Longrightarrow> groups_below B b \<Longrightarrow> 1 \<le> B \<Longrightarrow>
   list_all (\<lambda>n. int n = B) (batch_sizes cs) \<and> groups_below B b'"
proof (induction g q B b items arbitrary: cs b' rule: worker_loop.induct)
  case (1 g q B b)
  then show ?case by simp
next
  case (2 g q B b items)
  then show ?case by (simp add: batch_sizes_Nil)
next
  case (3 g q B b rt name p items)
  obtain cs1 b1 where st: "worker_step g q B b rt name p = (cs1, b1)"
    by (cases "worker_step g q B b rt name p")
  with "3.prems"(1) obtain cs2 where lp: "worker_loop g q B b1 items = Some (cs2, b')"
    and cs: "cs = cs1 @ cs2"
    by (auto split: option.splits)
  note s = step_sizes[OF "3.prems"(2,3) st]
  have "list_all (\<lambda>n. int n = B) (batch_sizes cs2) \<and> groups_below B b'"
    using "3.IH"[OF st[symmetric] lp] s "3.prems"(3) by simp
  then show ?case using s by (simp add: cs batch_sizes_append)
qed

lemma drain_sizes:
  "groups_below B b \<Longrightarrow> list_all (\<lambda>n. 0 < n \<and> int n < B) (batch_sizes (worker_drain g q b))"
  by (induction g q b rule: worker_drain.induct)
     (simp_all add: batch_sizes_Nil batch_sizes_append batch_sizes_flush)

lemma step_fires:
  assumes "groups_below B b" and "1 \<le> B"
  shows "worker_step g q B b rt name perms
         = (if int (length (set_add (resolve rt name) (buffer_get b perms))) = B
            then (flush g q perms (set_add (resolve rt name) (buffer_get b perms)),
                  buffer_clear perms (setdefault_add perms (resolve rt name) b))
            else ([], setdefault_add perms (resolve rt name) b))"
proof -
  have "int (length (set_add (resolve rt name) (buffer_get b perms))) \<le> B"
    using below_get_add[OF assms, of perms "resolve rt name"] by (simp add: get_setdefault_add)
  then show ?thesis
    by (auto simp: worker_step_def Let_def get_setdefault_add)
qed

text \<open>
  Claim C5. For a block size \<open>B\<close> of at least 1 and any stream of tasks, every batch a
  worker flushes inside its loop has exactly \<open>B\<close> paths, the buffer that the loop leaves
  (after any number of tasks) has fewer than \<open>B\<close> paths in every group, and every batch
  of the drain has at least one path and fewer than \<open>B\<close>. Every path dequeued so far
  has been named in a \<open>chmod\<close> under its permission string or waits in the buffer, and
  nothing else has; the \<open>chmod\<close> calls of the drain name exactly what the buffer holds.
  The next task is flushed with its whole group, by a \<open>chmod\<close> over the group, exactly
  when its path makes the group reach \<open>B\<close>, and is only buffered otherwise.
\<close>

theorem midrun_flush_at_block_size:
  assumes "1 \<le> B" and "worker_loop g q B [] items = Some (cs, b)"
  shows "worker_main items g q B = Some (cs, worker_drain g q b)
         \<and> list_all (\<lambda>n. int n = B) (batch_sizes cs)
         \<and> groups_below B b
         \<and> list_all (\<lambda>n. 0 < n \<and> int n < B) (batch_sizes (worker_drain g q b))
         \<and> set (chmod_pairs cs) \<union> set (buffer_pairs b) = set (consumed_pairs items)
         \<and> chmod_pairs (worker_drain g q b) = buffer_pairs b
         \<and> worker_step g q B b rt name perms
             = (if int (length (set_add (resolve rt name) (buffer_get b perms))) = B
                then (flush g q perms (set_add (resolve rt name) (buffer_get b perms)),
                      buffer_clear perms (setdefault_add perms (resolve rt name) b))
                else ([], setdefault_add perms (resolve rt name) b))
         \<and> chmod_pairs (flush g q perms (set_add (resolve rt name) (buffer_get b perms)))
             = map (Pair perms) (set_add (resolve rt name) (buffer_get b perms))"
proof -
  have l: "list_all (\<lambda>n. int n = B) (batch_sizes cs) \<and> groups_below B b"
    using loop_sizes[OF assms(2) _ assms(1)] by simp
  have m: "worker_main items g q B = Some (cs, worker_drain g q b)"
    using assms(2) by (simp add: worker_main_def)
  have d: "list_all (\<lambda>n. 0 < n \<and> int n < B) (batch_sizes (worker_drain g q b))"
    using l drain_sizes[of B b g q] by simp
  have p: "set (chmod_pairs cs) \<union> set (buffer_pairs b) = set (consumed_pairs items)"
    using loop_pairs[OF assms(2)] by simp
  have s: "worker_step g q B b rt name perms
             = (if int (length (set_add (resolve rt name) (buffer_get b perms))) = B
                then (flush g q perms (set_add (resolve rt name) (buffer_get b perms)),
                      buffer_clear perms (setdefault_add perms (resolve rt name) b))
                else ([], setdefault_add perms (resolve rt name) b))"
    using l assms(1) by (simp only: step_fires)
  show ?thesis
    using l m d p s drain_pairs[of g q b]
      chmod_pairs_flush[of g q perms "set_add (resolve rt name) (buffer_get b perms)"]
    by blast
qed

lemma flush_nonempty: "ps \<noteq> [] \<Longrightarrow> list_all (\<lambda>c. call_paths c \<noteq> []) (flush g q perms ps)"
  by (simp add: flush_def split: option.splits)

lemma step_nonempty:
  "worker_step g q B b rt name p = (cs, b') \<Longrightarrow> list_all (\<lambda>c. call_paths c \<noteq> []) cs"
  using flush_nonempty[OF get_add_nonempty]
  by (auto simp: worker_step_def Let_def split: if_splits)

lemma loop_nonempty:
  "worker_loop g q B b items = Some (cs, b') \<Longrightarrow> list_all (\<lambda>c. call_paths c \<noteq> []) cs"
proof (induction g q B b items arbitrary: cs b' rule: worker_loop.induct)
  case (1 g q B b)
  then show ?case by simp
next
  case (2 g q B b items)
  then show ?case by simp
next
  case (3 g q B b rt name p items)
  obtain cs1 b1 where st: "worker_step g q B b rt name p = (cs1, b1)"
    by (cases "worker_step g q B b rt name p")
  with "3.prems"(1) obtain cs2 where lp: "worker_loop g q B b1 items = Some (cs2, b')"
    and cs: "cs = cs1 @ cs2"
    by (auto split: option.splits)
  show ?case using step_nonempty[OF st] "3.IH"[OF st[symmetric] lp] by (simp add: cs)
qed

lemma drain_nonempty: "list_all (\<lambda>c. call_paths c \<noteq> []) (worker_drain g q b)"
  by (induction g q b rule: worker_drain.induct) (simp_all add: flush_nonempty)

lemma below_weaken: "groups_below B b \<Longrightarrow> B \<le> B' \<Longrightarrow> groups_below B' b"
  by (induction B b rule: groups_below.induct) auto

lemma below_after_add:
  "groups_below B b \<Longrightarrow> 1 \<le> B \<Longrightarrow> groups_below (B + 1) (setdefault_add p x b)"
proof (induction p x b rule: setdefault_add.induct)
  case (1 perms path)
  then show ?case by (simp add: set_add_def)
next
  case (2 perms path k s b)
  then show ?case using below_weaken[of B b "B + 1"] by (auto simp: set_add_def)
qed

text \<open>
  Claim C6, amended. No call of a flush, in the loop or in the drain, is made on an empty
  list of paths, whatever the block size. When the block size \<open>B\<close> is at least 1, no batch
  flushed in the loop has more than \<open>B\<close> paths, every group of the buffer has fewer than
  \<open>B\<close> paths between two tasks, and at most \<open>B\<close> right after the next path is added.
\<close>

theorem no_empty_flush_and_bounded_groups:
  assumes "worker_loop g q B [] items = Some (cs, b)"
  shows "worker_main items g q B = Some (cs, worker_drain g q b)
         \<and> list_all (\<lambda>c. call_paths c \<noteq> []) (cs @ worker_drain g q b)
         \<and> (1 \<le> B \<longrightarrow>
              list_all (\<lambda>n. int n \<le> B) (batch_sizes cs)
              \<and> groups_below B b
              \<and> groups_below (B + 1) (setdefault_add perms pth b))"
proof -
  have a: "list_all (\<lambda>c. call_paths c \<noteq> []) (cs @ worker_drain g q b)"
    using loop_nonempty[OF assms] drain_nonempty[of g q b] by simp
  have b: "list_all (\<lambda>n. int n \<le> B) (batch_sizes cs) \<and> groups_below B b
           \<and> groups_below (B + 1) (setdefault_add perms pth b)" if "1 \<le> B"
  proof -
    have l: "list_all (\<lambda>n. int n = B) (batch_sizes cs) \<and> groups_below B b"
      using loop_sizes[OF assms _ that] by simp
    then have "list_all (\<lambda>n. int n \<le> B) (batch_sizes cs)"
      by (simp add: list_all_iff)
    then show ?thesis using l below_after_add[of B b perms pth] that by simp
  qed
  show ?thesis using a b assms by (simp add: worker_main_def)
qed

lemma flush_distinct: "distinct ps \<Longrightarrow> list_all (\<lambda>c. distinct (call_paths c)) (flush g q perms ps)"
  by (simp add: flush_def split: option.splits)

lemma step_distinct:
  assumes "groups_distinct b" and "worker_step g q B b rt name p = (cs, b')"
  shows "list_all (\<lambda>c. distinct (call_paths c)) cs \<and> groups_distinct b'"
proof -
  have d: "groups_distinct (setdefault_add p (resolve rt name) b)"
    using assms(1) by (rule groups_distinct_add)
  show ?thesis
    using assms(2) d groups_distinct_clear[OF d, of p]
      flush_distinct[OF groups_distinct_get[OF d, of p], of g q p]
    by (auto simp: worker_step_def Let_def split: if_splits)
qed

lemma loop_distinct:
  "worker_loop g q B b items = Some (cs, b') \<Longrightarrow> groups_distinct b \<Longrightarrow>
   list_all (\<lambda>c. distinct (call_paths c)) cs \<and> groups_distinct b'"
proof (induction g q B b items arbitrary: cs b' rule: worker_loop.induct)
  case (1 g q B b)
  then show ?case by simp
next
  case (2 g q B b items)
  then show ?case by simp
next
  case (3 g q B b rt name p items)
  obtain cs1 b1 where st: "worker_step g q B b rt name p = (cs1, b1)"
    by (cases "worker_step g q B b rt name p")
  with "3.prems"(1) obtain cs2 where lp: "worker_loop g q B b1 items = Some (cs2, b')"
    and cs: "cs = cs1 @ cs2"
    by (auto split: option.splits)
  note s = step_distinct[OF "3.prems"(2) st]
  show ?case using s "3.IH"[OF st[symmetric] lp] by (simp add: cs)
qed

lemma drain_distinct:
  "groups_distinct b \<Longrightarrow> list_all (\<lambda>c. distinct (call_paths c)) (worker_drain g q b)"
  by (induction g q b rule: worker_drain.induct) (simp_all add: flush_distinct)

lemma set_add_idem: "set_add x (set_add x s) = set_add x s"
  by (simp add: set_add_def)

lemma setdefault_add_idem:
  "setdefault_add p x (setdefault_add p x b) = setdefault_add p x b"
  by (induction p x b rule: setdefault_add.induct) (simp_all add: set_add_idem)

text \<open>
  Claim C7. No group of a worker's buffer ever holds a path twice: not after any number of
  tasks, not after one more path is added; adding the same path under the same permission
  string a second time changes nothing; and no flushed batch names a path twice.
\<close>

theorem groups_hold_each_path_once:
  assumes "worker_loop g q B [] items = Some (cs, b)"
  shows "groups_distinct b
         \<and> groups_distinct (setdefault_add perms pth b)
         \<and> setdefault_add perms pth (setdefault_add perms pth b) = setdefault_add perms pth b
         \<and> list_all (\<lambda>c. distinct (call_paths c)) (cs @ worker_drain g q b)"
proof -
  have l: "list_all (\<lambda>c. distinct (call_paths c)) cs \<and> groups_distinct b"
    using loop_distinct[OF assms] by simp
  then show ?thesis
    using groups_distinct_add[of b perms pth] drain_distinct[of b g q]
    by (simp add: setdefault_add_idem)
qed

lemma parse_arg_ok:
  "parse_arg e c arg = (ev, Ok (Some c')) \<Longrightarrow> ev = [] \<and> path c' = path c"
  by (auto simp: parse_arg_def split: if_splits option.splits prod.splits)

lemma parse_loop_ok:
  "parse_loop e c args = (ev, Ok (Some c')) \<Longrightarrow> ev = [] \<and> path c' = path c"
proof (induction e c args arbitrary: ev c' rule: parse_loop.induct)
  case (1 e c)
  then show ?case by simp
next
  case (2 e c arg args)
  obtain ev1 r1 where p: "parse_arg e c arg = (ev1, r1)" by (cases "parse_arg e c arg")
  show ?case
  proof (cases r1)
    case (Ok x)
    show ?thesis
    proof (cases x)
      case None
      then show ?thesis using "2.prems" p Ok by simp
    next
      case (Some c1)
      obtain ev2 r2 where l: "parse_loop e c1 args = (ev2, r2)" by (cases "parse_loop e c1 args")
      have r: "ev = ev1 @ ev2" "r2 = Ok (Some c')"
        using "2.prems" p Ok Some l by simp_all
      have "ev2 = [] \<and> path c' = path c1"
        using "2.IH"[OF p[symmetric] Ok Some] l r(2) by simp
      then show ?thesis using parse_arg_ok[of e c arg ev1 c1] p Ok Some r(1) by simp
    qed
  next
    case (SysExit n)
    then show ?thesis using "2.prems" p by simp
  next
    case (Raised x)
    then show ?thesis using "2.prems" p by simp
  next
    case Blocked
    then show ?thesis using "2.prems" p by simp
  qed
qed

lemma parse_args_ok:
  assumes "parse_args e argv = (ev, Ok (Some c))"
  shows "ev = [] \<and> path c = argv ! 1 \<and> path_exists e (argv ! 1) \<and> 2 \<le> length argv"
proof -
  obtain mk where mk: "Config e = Ok mk"
    using assms by (cases "Config e") (auto simp: parse_args_def)
  have len: "2 \<le> length argv"
    using assms mk by (auto simp: parse_args_def split: if_splits)
  have ex: "path_exists e (argv ! 1)"
    and l: "parse_loop e (mk (argv ! 1)) (drop 2 argv) = (ev, Ok (Some c))"
    using assms mk by (auto simp: parse_args_def split: if_splits)
  have p0: "path (mk (argv ! 1)) = argv ! 1"
    using mk by (auto simp: Config_def split: option.splits)
  show ?thesis using parse_loop_ok[OF l] p0 ex len by simp
qed

lemma folder_result:
  "result (fastmod_folder e c sched)
   = (if walk_tasks c (os_walk e (path c)) = [] \<or> elapsed e = 0
      then Raised ZeroDivisionError else Ok ())"
  by (simp add: fastmod_folder_def Let_def folder_joined)

lemma folder_reports:
  "filter is_report (events (fastmod_folder e c sched))
   = (if walk_tasks c (os_walk e (path c)) = [] \<or> elapsed e = 0 then []
      else [Print (Report (length (walk_tasks c (os_walk e (path c)))) (elapsed e))])"
proof -
  have "filter is_report (map Put ts) = []" for ts
    by (induction ts) auto
  then show ?thesis
    by (simp add: fastmod_folder_def Let_def folder_joined)
qed

text \<open>
  Claim C8. When \<open>argv[1]\<close> does not exist, \<open>main\<close> starts no worker, puts nothing on the
  queue, makes no \<open>os.system\<close> call, prints no report, and the process ends with status 1.
  Where the default preset names a preset, what it prints is the one line
  \<open>fastmod: no such path as ...\<close> and it ends by \<open>sys.exit(1)\<close>.
\<close>

theorem missing_root_aborts_before_workers:
  assumes "2 \<le> length argv" and "\<not> path_exists e (argv ! 1)"
  shows "filter is_start (events (main e argv sched)) = []
         \<and> filter is_put (events (main e argv sched)) = []
         \<and> filter is_system (events (main e argv sched)) = []
         \<and> filter is_report (events (main e argv sched)) = []
         \<and> workers (main e argv sched) = []
         \<and> exit_status (result (main e argv sched)) = Some 1
         \<and> (map_of PRESETS (DEFAULT_PRESET e) \<noteq> None \<longrightarrow>
              events (main e argv sched) = [Print (NoSuchPath (argv ! 1))]
              \<and> result (main e argv sched) = SysExit 1)"
proof (cases "map_of PRESETS (DEFAULT_PRESET e)")
  case None
  then have "parse_args e argv = ([], Raised KeyError)"
    using assms(1) by (simp add: parse_args_def Config_def)
  then have "main e argv sched = \<lparr>events = [], workers = [], result = Raised KeyError\<rparr>"
    using assms(1) by (simp add: main_def)
  then show ?thesis using None by simp
next
  case (Some pr)
  obtain fil dir where pr: "pr = (fil, dir)" by (cases pr)
  have "parse_args e argv = ([Print (NoSuchPath (argv ! 1))], SysExit 1)"
    using assms Some pr by (simp add: parse_args_def Config_def)
  then have "main e argv sched
             = \<lparr>events = [Print (NoSuchPath (argv ! 1))], workers = [], result = SysExit 1\<rparr>"
    using assms(1) by (simp add: main_def)
  then show ?thesis by simp
qed

lemma main_parsed:
  assumes "parse_args e argv = (ev, Ok (Some c))"
  shows "events (main e argv sched) = events (main_run e c sched)"
    and "workers (main e argv sched) = workers (main_run e c sched)"
    and "result (main e argv sched) = result (main_run e c sched)"
  using assms parse_args_ok[OF assms] by (simp_all add: main_def Let_def)

text \<open>
  Claim C9. When \<open>parse_args\<close> returns a configuration and the path is not a directory,
  \<open>main\<close> makes exactly one \<open>chmod\<close> call on the path, followed by exactly one \<open>chgrp\<close>
  call if \<open>set_group\<close> holds and by none otherwise; it starts no worker and puts nothing
  on a queue.
\<close>

theorem single_file_bypasses_pool:
  assumes "parse_args e argv = (ev, Ok (Some c))" and "\<not> path_isdir e (argv ! 1)"
  shows "path_exists e (argv ! 1)
         \<and> filter is_system (events (main e argv sched))
             = System (Chmod False (perms_fil c) [argv ! 1])
               # (if set_group c then [System (Chgrp False (py_str (grp c)) [argv ! 1])] else [])
         \<and> filter is_start (events (main e argv sched)) = []
         \<and> filter is_put (events (main e argv sched)) = []
         \<and> workers (main e argv sched) = []
         \<and> result (main e argv sched) = Ok 0"
proof -
  note ok = parse_args_ok[OF assms(1)]
  have nd: "\<not> path_isdir e (path c)" using ok assms(2) by simp
  show ?thesis
    using ok nd by (simp add: main_parsed[OF assms(1)] main_run_def fastmod_file_def Let_def)
qed

text \<open>
  Claim C10. With a group configured, \<open>fastmod_file\<close> calls \<open>chmod\<close> first and \<open>chgrp\<close>
  second, where a flush of the worker calls \<open>chgrp\<close> first and \<open>chmod\<close> second.
\<close>

theorem single_file_permission_before_owner:
  assumes "set_group c"
  shows "filter is_system (events (fastmod_file c))
           = [System (Chmod False (perms_fil c) [path c]),
              System (Chgrp False (py_str (grp c)) [path c])]
         \<and> flush (Some g) q perms ps = [Chgrp q g ps, Chmod q perms ps]"
  using assms by (simp add: fastmod_file_def flush_def)

text \<open>
  Claim C3, amended. A configuration with a block size or a worker count below 1 is not
  rejected. \<open>-B\<close> and \<open>-C\<close> store any integer \<open>int\<close> accepts, and on a directory the run
  starts: it starts \<open>max(0, ncpus)\<close> workers, puts every task of the walk on the queue and
  ends by returning 0 or in the division of the report line.
\<close>

theorem block_size_and_worker_count_not_validated:
  assumes "blocksize c < 1 \<or> ncpus c < 1" and "path_isdir e (path c)"
  shows "filter is_start (events (main_run e c sched))
           = replicate (nat (ncpus c))
               (Start (if set_group c then grp c else None) (quiet c) (blocksize c))
         \<and> filter is_put_task (events (main_run e c sched))
             = map Put (walk_tasks c (os_walk e (path c)))
         \<and> (result (main_run e c sched) = Ok 0
              \<or> result (main_run e c sched) = Raised ZeroDivisionError)
         \<and> (py_int e s = Some n \<longrightarrow>
               parse_arg e c (''-B'' @ s) = ([], Ok (Some (c\<lparr>blocksize := n\<rparr>)))
               \<and> parse_arg e c (''-C'' @ s) = ([], Ok (Some (c\<lparr>ncpus := n\<rparr>))))"
  using assms(2)
  by (simp add: main_run_def Let_def folder_starts folder_puts folder_result parse_arg_def)

theorem midrun_flush_at_block_size_witness:
  "(1::int) \<le> 2
   \<and> worker_main [Task ''d'' ''.'' ''p'', Task ''d'' ''a'' ''p'', Task ''d'' ''b'' ''p'', Stop]
        (Some ''staff'') False 2
      = Some ([Chgrp False ''staff'' [''d'', ''d/a''], Chmod False ''p'' [''d'', ''d/a'']],
              worker_drain (Some ''staff'') False [(''p'', [''d/b''])])
   \<and> list_all (\<lambda>n. int n = 2)
        (batch_sizes [Chgrp False ''staff'' [''d'', ''d/a''], Chmod False ''p'' [''d'', ''d/a'']])
   \<and> groups_below 2 [(''p'', [''d/b''])]
   \<and> list_all (\<lambda>n. 0 < n \<and> int n < 2)
        (batch_sizes (worker_drain (Some ''staff'') False [(''p'', [''d/b''])]))
   \<and> chmod_pairs (worker_drain (Some ''staff'') False [(''p'', [''d/b''])]) = [(''p'', ''d/b'')]
   \<and> worker_step (Some ''staff'') False 2 [(''p'', [''d/b''])] ''d'' ''c'' ''p''
      = ([Chgrp False ''staff'' [''d/b'', ''d/c''], Chmod False ''p'' [''d/b'', ''d/c'']],
         [(''p'', [])])
   \<and> worker_step (Some ''staff'') False 2 [(''p'', [''d/b''])] ''d'' ''c'' ''r''
      = ([], [(''p'', [''d/b'']), (''r'', [''d/c''])])"
proof -
  have h1: "(1::int) \<le> 2" by simp
  have h2: "worker_loop (Some ''staff'') False 2 []
     [Task ''d'' ''.'' ''p'', Task ''d'' ''a'' ''p'', Task ''d'' ''b'' ''p'', Stop]
   = Some ([Chgrp False ''staff'' [''d'', ''d/a''], Chmod False ''p'' [''d'', ''d/a'']],
           [(''p'', [''d/b''])])"
    by (simp add: worker_step_def resolve_def set_add_def flush_def Let_def)
  show ?thesis
    using midrun_flush_at_block_size[OF h1 h2, where rt = "''d''" and name = "''c''" and perms = "''p''"]
      midrun_flush_at_block_size[OF h1 h2, where rt = "''d''" and name = "''c''" and perms = "''r''"]
    by (simp add: resolve_def set_add_def flush_def)
qed

theorem no_empty_flush_and_bounded_groups_witness:
  "worker_main [Task ''d'' ''.'' ''p'', Task ''d'' ''a'' ''p'', Task ''d'' ''b'' ''p'', Stop]
        (Some ''staff'') False 2
      = Some ([Chgrp False ''staff'' [''d'', ''d/a''], Chmod False ''p'' [''d'', ''d/a'']],
              worker_drain (Some ''staff'') False [(''p'', [''d/b''])])
   \<and> list_all (\<lambda>c. call_paths c \<noteq> [])
        ([Chgrp False ''staff'' [''d'', ''d/a''], Chmod False ''p'' [''d'', ''d/a'']]
         @ worker_drain (Some ''staff'') False [(''p'', [''d/b''])])
   \<and> (1::int) \<le> 2
   \<and> list_all (\<lambda>n. int n \<le> 2)
        (batch_sizes [Chgrp False ''staff'' [''d'', ''d/a''], Chmod False ''p'' [''d'', ''d/a'']])
   \<and> groups_below 2 [(''p'', [''d/b''])]
   \<and> groups_below (2 + 1) (setdefault_add ''p'' ''d/c'' [(''p'', [''d/b''])])"
proof -
  have h: "worker_loop (Some ''staff'') False 2 []
     [Task ''d'' ''.'' ''p'', Task ''d'' ''a'' ''p'', Task ''d'' ''b'' ''p'', Stop]
   = Some ([Chgrp False ''staff'' [''d'', ''d/a''], Chmod False ''p'' [''d'', ''d/a'']],
           [(''p'', [''d/b''])])"
    by (simp add: worker_step_def resolve_def set_add_def flush_def Let_def)
  show ?thesis using no_empty_flush_and_bounded_groups[OF h, of "''p''" "''d/c''"] by simp
qed

text \<open>
  Claim C6 as stated fails for a block size of 0, which \<open>-B0\<close> sets: the first task is
  flushed at once, a group of one path against a block size of 0, inside the loop.
\<close>

theorem zero_block_size_group_exceeds:
  "worker_main [Task ''d'' ''.'' ''p'', Stop] None False 0
     = Some ([Chmod False ''p'' [''d'']], [])
   \<and> batch_sizes [Chmod False ''p'' [''d'']] = [1]
   \<and> \<not> int 1 \<le> 0"
  by (simp add: worker_main_def worker_step_def resolve_def set_add_def flush_def Let_def
      batch_sizes_def)

theorem groups_hold_each_path_once_witness:
  "worker_loop None False 5 [] [Task ''d'' ''a'' ''p'', Task ''d'' ''a'' ''p'', Stop]
     = Some ([], [(''p'', [''d/a''])])
   \<and> groups_distinct [(''p'', [''d/a''])]
   \<and> groups_distinct (setdefault_add ''p'' ''d/a'' [(''p'', [''d/a''])])
   \<and> setdefault_add ''p'' ''d/a'' (setdefault_add ''p'' ''d/a'' [(''p'', [''d/a''])])
      = setdefault_add ''p'' ''d/a'' [(''p'', [''d/a''])]
   \<and> list_all (\<lambda>c. distinct (call_paths c)) ([] @ worker_drain None False [(''p'', [''d/a''])])"
proof -
  have h: "worker_loop None False 5 [] [Task ''d'' ''a'' ''p'', Task ''d'' ''a'' ''p'', Stop]
     = Some ([], [(''p'', [''d/a''])])"
    by (simp add: worker_step_def resolve_def set_add_def flush_def Let_def)
  show ?thesis using groups_hold_each_path_once[OF h, of "''p''" "''d/a''"] h by simp
qed

theorem missing_root_aborts_before_workers_witness:
  "2 \<le> length [''fastmod'', ''x''] \<and> \<not> path_exists ex_env ([''fastmod'', ''x''] ! 1)
   \<and> map_of PRESETS (DEFAULT_PRESET ex_env) \<noteq> None
   \<and> events (main ex_env [''fastmod'', ''x''] id) = [Print (NoSuchPath ''x'')]
   \<and> workers (main ex_env [''fastmod'', ''x''] id) = []
   \<and> result (main ex_env [''fastmod'', ''x''] id) = SysExit 1
   \<and> exit_status (result (main ex_env [''fastmod'', ''x''] id)) = Some 1"
proof -
  have h1: "2 \<le> length [''fastmod'', ''x'']" by simp
  have h2: "\<not> path_exists ex_env ([''fastmod'', ''x''] ! 1)" by (simp add: ex_env_def)
  have h3: "map_of PRESETS (DEFAULT_PRESET ex_env) \<noteq> None" by (simp add: ex_env_def PRESETS_def)
  show ?thesis using missing_root_aborts_before_workers[OF h1 h2, of id] h1 h2 h3 by simp
qed

theorem single_file_bypasses_pool_witness:
  "parse_args ex_env [''fastmod'', ''f'', ''-Gusers''] = ([], Ok (Some ex_file_cfg))
   \<and> \<not> path_isdir ex_env ([''fastmod'', ''f'', ''-Gusers''] ! 1)
   \<and> filter is_system (events (main ex_env [''fastmod'', ''f'', ''-Gusers''] id))
      = [System (Chmod False ''u+rw,g+r-w,o+r-w'' [''f'']), System (Chgrp False ''users'' [''f''])]
   \<and> workers (main ex_env [''fastmod'', ''f'', ''-Gusers''] id) = []
   \<and> result (main ex_env [''fastmod'', ''f'', ''-Gusers''] id) = Ok 0"
proof -
  have h1: "parse_args ex_env [''fastmod'', ''f'', ''-Gusers''] = ([], Ok (Some ex_file_cfg))"
    by (simp add: parse_args_def Config_def PRESETS_def ex_env_def parse_arg_def ex_file_cfg_def)
  have h2: "\<not> path_isdir ex_env ([''fastmod'', ''f'', ''-Gusers''] ! 1)"
    by (simp add: ex_env_def)
  show ?thesis using single_file_bypasses_pool[OF h1 h2, of id] h1 h2 by (simp add: ex_file_cfg_def)
qed

theorem single_file_permission_before_owner_witness:
  "set_group ex_cfg
   \<and> filter is_system (events (fastmod_file ex_cfg))
      = [System (Chmod False ''u+rw'' [''d'']), System (Chgrp False ''staff'' [''d''])]
   \<and> flush (Some ''staff'') False ''u+rw'' [''d'']
      = [Chgrp False ''staff'' [''d''], Chmod False ''u+rw'' [''d'']]"
proof -
  have h: "set_group ex_cfg" by (simp add: ex_cfg_def)
  show ?thesis using single_file_permission_before_owner[OF h, of "''staff''" False "''u+rw''" "[''d'']"] h
    by (simp add: ex_cfg_def)
qed

theorem block_size_and_worker_count_not_validated_witness:
  "(blocksize (ex_cfg\<lparr>blocksize := 0\<rparr>) < 1 \<or> ncpus (ex_cfg\<lparr>blocksize := 0\<rparr>) < 1)
   \<and> path_isdir ex_env (path (ex_cfg\<lparr>blocksize := 0\<rparr>))
   \<and> py_int ex_env ''0'' = Some 0
   \<and> filter is_start (events (main_run ex_env (ex_cfg\<lparr>blocksize := 0\<rparr>) id))
      = [Start (Some ''staff'') False 0, Start (Some ''staff'') False 0]
   \<and> parse_arg ex_env (ex_cfg\<lparr>blocksize := 0\<rparr>) ''-B0''
      = ([], Ok (Some (ex_cfg\<lparr>blocksize := 0\<rparr>)))
   \<and> parse_arg ex_env (ex_cfg\<lparr>blocksize := 0\<rparr>) ''-C0''
      = ([], Ok (Some (ex_cfg\<lparr>blocksize := 0, ncpus := 0\<rparr>)))"
proof -
  have h1: "blocksize (ex_cfg\<lparr>blocksize := 0\<rparr>) < 1 \<or> ncpus (ex_cfg\<lparr>blocksize := 0\<rparr>) < 1"
    by simp
  have h2: "path_isdir ex_env (path (ex_cfg\<lparr>blocksize := 0\<rparr>))"
    by (simp add: ex_env_def ex_cfg_def)
  have h3: "py_int ex_env ''0'' = Some 0"
    by (simp add: ex_env_def ex_int_def)
  show ?thesis
    using block_size_and_worker_count_not_validated[OF h1 h2, where s = "''0''" and n = 0 and sched = id] h1 h2 h3
    by (simp add: ex_cfg_def numeral_2_eq_2)
qed

text \<open>
  Claim C3 as stated fails: \<open>fastmod d -B0 -C1\<close> on a directory is parsed into a
  configuration of block size 0, one worker is started, the five tasks of the example tree
  are put on the queue and \<open>main\<close> returns 0.
\<close>

theorem zero_block_size_run_starts:
  "parse_args ex_env [''fastmod'', ''d'', ''-B0'', ''-C1''] = ([], Ok (Some ex_parsed_cfg))
   \<and> blocksize ex_parsed_cfg < 1
   \<and> filter is_start (events (main ex_env [''fastmod'', ''d'', ''-B0'', ''-C1''] id))
      = [Start None False 0]
   \<and> length (filter is_put_task (events (main ex_env [''fastmod'', ''d'', ''-B0'', ''-C1''] id)))
      = 5
   \<and> result (main ex_env [''fastmod'', ''d'', ''-B0'', ''-C1''] id) = Ok 0"
proof -
  have h: "parse_args ex_env [''fastmod'', ''d'', ''-B0'', ''-C1''] = ([], Ok (Some ex_parsed_cfg))"
    by (simp add: parse_args_def Config_def PRESETS_def ex_env_def parse_arg_def ex_parsed_cfg_def
        ex_int_def)
  have d: "path_isdir ex_env (path ex_parsed_cfg)" by (simp add: ex_env_def ex_parsed_cfg_def)
  have w: "os_walk ex_env (path ex_parsed_cfg) = walk (path ex_parsed_cfg) ex_tree"
    by (simp add: ex_env_def)
  have n: "length (walk_tasks ex_parsed_cfg (walk (path ex_parsed_cfg) ex_tree)) = 5"
    using length_walk_tasks[of ex_tree ex_parsed_cfg "path ex_parsed_cfg"]
    by (simp add: ex_tree_def)
  have s: "filter is_start (events (main_run ex_env ex_parsed_cfg id)) = [Start None False 0]"
    using d by (simp add: main_run_def Let_def folder_starts) (simp add: ex_parsed_cfg_def)
  have p: "length (filter is_put_task (events (main_run ex_env ex_parsed_cfg id))) = 5"
    using d n by (simp add: main_run_def Let_def folder_puts w)
  have r: "result (main_run ex_env ex_parsed_cfg id) = Ok 0"
    using d n by (auto simp: main_run_def Let_def folder_result w) (simp add: ex_env_def)
  show ?thesis using h s p r by (simp add: main_parsed[OF h] ex_parsed_cfg_def)
qed

text \<open>
  Claim C4. \<open>os.walk\<close> yields nothing for a directory it cannot list; the folder run then
  counts no task and the report line divides by \<open>total\<close>: \<open>ZeroDivisionError\<close> is raised,
  no report is printed and the process ends with status 1.
\<close>

theorem report_with_no_task_raises:
  "parse_args ex_unlistable_env [''fastmod'', ''d''] = ([], Ok (Some ex_default_cfg))
   \<and> os_walk ex_unlistable_env (path ex_default_cfg) = []
   \<and> result (fastmod_folder ex_unlistable_env ex_default_cfg id) = Raised ZeroDivisionError
   \<and> filter is_report (events (fastmod_folder ex_unlistable_env ex_default_cfg id)) = []
   \<and> result (main ex_unlistable_env [''fastmod'', ''d''] id) = Raised ZeroDivisionError
   \<and> exit_status (result (main ex_unlistable_env [''fastmod'', ''d''] id)) = Some 1"
proof -
  let ?e = "ex_unlistable_env"
  have h: "parse_args ?e [''fastmod'', ''d''] = ([], Ok (Some ex_default_cfg))"
    by (simp add: parse_args_def Config_def PRESETS_def ex_unlistable_env_def ex_env_def
        ex_default_cfg_def)
  have w: "os_walk ?e (path ex_default_cfg) = []" by (simp add: ex_unlistable_env_def)
  have d: "path_isdir ?e (path ex_default_cfg)"
    by (simp add: ex_unlistable_env_def ex_env_def ex_default_cfg_def)
  have r: "result (fastmod_folder ?e ex_default_cfg id) = Raised ZeroDivisionError"
    by (simp add: folder_result w walk_tasks_Nil)
  have p: "filter is_report (events (fastmod_folder ?e ex_default_cfg id)) = []"
    by (simp add: folder_reports w walk_tasks_Nil)
  have m: "result (main ?e [''fastmod'', ''d''] id) = Raised ZeroDivisionError"
    using d r by (simp add: main_parsed[OF h] main_run_def Let_def)
  show ?thesis using h w r p m by simp
qed

end
